theory Spec2Isabelle
  imports Main
begin

section \<open>Strings\<close>

text \<open>
  Go strings are byte sequences; they are modelled as \<open>string\<close> (a list of
  \<open>char\<close>, one per byte). The functions of package \<open>strings\<close> that the program
  calls are modelled on bytes. Every separator the program passes is the one-byte string
  \<open>"/"\<close>, so \<open>Split\<close> and \<open>LastIndex\<close> take the separator as a \<open>char\<close>.
\<close>

text \<open>\<open>strings.TrimRight(s, cutset)\<close>: \<open>s\<close> without its trailing bytes that occur in \<open>cutset\<close>.\<close>

definition TrimRight :: "string \<Rightarrow> string \<Rightarrow> string" where
  "TrimRight s cutset = rev (dropWhile (\<lambda>c. c \<in> set cutset) (rev s))"

text \<open>
  \<open>strings.Split(s, sep)\<close>: the pieces of \<open>s\<close> between the occurrences of \<open>sep\<close>;
  a string without \<open>sep\<close> (also the empty one) gives the one-element list \<open>[s]\<close>.
\<close>

fun Split :: "string \<Rightarrow> char \<Rightarrow> string list" where
  "Split [] sep = [[]]"
| "Split (c # cs) sep =
     (if c = sep then [] # Split cs sep
      else (c # hd (Split cs sep)) # tl (Split cs sep))"

text \<open>\<open>strings.Join(elems, sep)\<close>.\<close>

fun Join :: "string list \<Rightarrow> string \<Rightarrow> string" where
  "Join [] sep = []"
| "Join [x] sep = x"
| "Join (x # y # ys) sep = x @ sep @ Join (y # ys) sep"

text \<open>\<open>strings.HasPrefix(s, prefix)\<close>.\<close>

definition HasPrefix :: "string \<Rightarrow> string \<Rightarrow> bool" where
  "HasPrefix s pre = (length pre \<le> length s \<and> take (length pre) s = pre)"

text \<open>
  \<open>strings.LastIndex(s, sep)\<close> for a one-byte separator: the index of the last
  occurrence of \<open>sep\<close> in \<open>s\<close>, and \<open>-1\<close> when there is none. The helper scans the
  indices below \<open>n\<close> downwards.
\<close>

fun last_index_below :: "string \<Rightarrow> char \<Rightarrow> nat \<Rightarrow> int" where
  "last_index_below s sep 0 = - 1"
| "last_index_below s sep (Suc i) =
     (if s ! i = sep then int i else last_index_below s sep i)"

definition LastIndex :: "string \<Rightarrow> char \<Rightarrow> int" where
  "LastIndex s sep = last_index_below s sep (length s)"

text \<open>
  \<open>strings.ToLower\<close> on bytes: the ASCII capitals are mapped to their small letters and
  every other byte is kept. This is what Go does on a string of ASCII bytes. On a string
  with a byte outside ASCII Go also maps the capitals outside ASCII, which is not modelled;
  the program lower-cases header names and media types, which HTTP writes in ASCII, and
  compares the results with ASCII literals.
\<close>

definition lower_byte :: "char \<Rightarrow> char" where
  "lower_byte c =
     (case map_of (zip ''ABCDEFGHIJKLMNOPQRSTUVWXYZ'' ''abcdefghijklmnopqrstuvwxyz'') c of
        Some l \<Rightarrow> l
      | None \<Rightarrow> c)"

definition ToLower :: "string \<Rightarrow> string" where
  "ToLower s = map lower_byte s"

section \<open>URLs\<close>

text \<open>
  \<open>url.URL\<close> of the standard library, field by field. \<open>User\<close> is a pointer to the
  user name and the optional password.
\<close>

type_synonym userinfo = "string \<times> string option"

record url =
  Scheme :: string
  Opaque :: string
  User :: "userinfo option"
  Host :: string
  Path :: string
  RawPath :: string
  ForceQuery :: bool
  RawQuery :: string
  Fragment :: string

subsection \<open>Package util\<close>

definition slash :: char where
  "slash = CHR ''/''"

definition dot :: char where
  "dot = CHR ''.''"

definition URLIsDir :: "url \<Rightarrow> bool" where
  "URLIsDir u =
     (let l = length (Path u) in
      if l = 0 then True else Path u ! (l - 1) = slash)"

text \<open>
  \<open>getParentPathsString\<close>: the loop runs \<open>i\<close> from 2 while \<open>i < len(splitPath)\<close> and
  appends the join of the first \<open>i\<close> pieces.
\<close>

definition getParentPathsString :: "string \<Rightarrow> string list" where
  "getParentPathsString childPath =
     (let splitPath = Split (TrimRight childPath ''/'') slash in
      map (\<lambda>i. Join (take i splitPath) ''/'') [2 ..< length splitPath])"

text \<open>
  \<open>GetParentPaths\<close>: every parent is a copy of the child (\<open>parentURL := *child\<close>) whose
  \<open>Path\<close> is then overwritten.
\<close>

definition GetParentPaths :: "url \<Rightarrow> url list" where
  "GetParentPaths child =
     (let childPath = TrimRight (Path child) ''/'' in
      map (\<lambda>path. child\<lparr>Path := path\<rparr>) (getParentPathsString childPath))"

text \<open>
  \<open>path.Clean\<close> of the standard library, as its loop over the bytes of the path.
  \<open>rest\<close> is the unread part \<open>path[r:]\<close>, \<open>out\<close> the buffer written so far
  (\<open>out.w\<close> is its length) and \<open>dotdot\<close> the index up to which \<open>..\<close> may not back up.
  \<open>backup\<close> is the inner loop of the \<open>..\<close> case: from index \<open>w\<close> it steps down while
  \<open>w > dotdot\<close> and the byte at \<open>w\<close> is not a slash.
\<close>

fun backup :: "string \<Rightarrow> nat \<Rightarrow> nat \<Rightarrow> nat" where
  "backup out dotdot 0 = 0"
| "backup out dotdot (Suc w) =
     (if Suc w > dotdot \<and> out ! (Suc w) \<noteq> CHR ''/'' then backup out dotdot w else Suc w)"

function clean_loop :: "bool \<Rightarrow> string \<Rightarrow> string \<Rightarrow> nat \<Rightarrow> string" where
  "clean_loop rooted [] out dotdot = out"
| "clean_loop rooted (c # cs) out dotdot =
     (if c = CHR ''/'' then clean_loop rooted cs out dotdot
      else if c = CHR ''.'' \<and> (cs = [] \<or> hd cs = CHR ''/'') then
        clean_loop rooted cs out dotdot
      else if c = CHR ''.'' \<and> hd cs = CHR ''.'' \<and> (tl cs = [] \<or> hd (tl cs) = CHR ''/'') then
        (if length out > dotdot then
           clean_loop rooted (tl cs) (take (backup out dotdot (length out - 1)) out) dotdot
         else if \<not> rooted then
           (let out' = (if length out > 0 then out @ ''/'' else out) @ ''..''
            in clean_loop rooted (tl cs) out' (length out'))
         else clean_loop rooted (tl cs) out dotdot)
      else
        (let out' = (if rooted \<and> length out \<noteq> 1 \<or> \<not> rooted \<and> length out \<noteq> 0
                     then out @ ''/'' else out)
         in clean_loop rooted (dropWhile (\<lambda>x. x \<noteq> CHR ''/'') cs)
              (out' @ c # takeWhile (\<lambda>x. x \<noteq> CHR ''/'') cs) dotdot))"
  by pat_completeness auto
termination
  by (relation "measure (\<lambda>(rooted, rest, out, dotdot). length rest)")
     (auto simp: le_imp_less_Suc [OF length_dropWhile_le])

definition Clean :: "string \<Rightarrow> string" where
  "Clean path =
     (if path = [] then ''.''
      else
        (let rooted = (hd path = CHR ''/'');
             out = (if rooted then clean_loop True (tl path) ''/'' 1
                    else clean_loop False path [] 0)
         in if length out = 0 then ''.'' else out))"

text \<open>
  \<open>URLIsSubpath\<close>. The index \<open>len(pPath)\<close> of the last line lies inside \<open>cPath\<close>, which
  at that point has \<open>pPath\<close> as a prefix and differs from it.
\<close>

definition URLIsSubpath :: "url \<Rightarrow> url \<Rightarrow> bool" where
  "URLIsSubpath parent child =
     (if Scheme parent \<noteq> [] \<and> Scheme child \<noteq> Scheme parent then False
      else if Host parent \<noteq> [] \<and> Host child \<noteq> Host parent then False
      else if Path parent = ''/'' then True
      else
        (let pPath = Clean (Path parent);
             cPath = Clean (Path child)
         in if length cPath < length pPath then False
            else if cPath = pPath then True
            else if \<not> HasPrefix cPath pPath then False
            else cPath ! (length pPath) = slash))"

text \<open>
  Plain paths. A piece of a path is a name when it is not empty, not \<open>.\<close> and not \<open>..\<close>.
  A path is plain when, with its trailing slashes removed and split at its slashes, no
  piece is \<open>..\<close> and its first piece is a name; for a path that begins with a slash the
  first piece is the one after that slash.
\<close>

definition plain_segment :: "string \<Rightarrow> bool" where
  "plain_segment s = (s \<noteq> [] \<and> s \<noteq> ''.'' \<and> s \<noteq> ''..'')"

definition plain_path :: "string \<Rightarrow> bool" where
  "plain_path path =
     (case Split (TrimRight path ''/'') CHR ''/'' of
        [] \<Rightarrow> False
      | first # rest \<Rightarrow>
          list_all (\<lambda>s. s \<noteq> ''..'') rest \<and>
          (if first = [] then (case rest of [] \<Rightarrow> True | r # rs \<Rightarrow> plain_segment r)
           else plain_segment first))"

text \<open>\<open>StringSliceContains\<close>: the loop over the haystack.\<close>

fun StringSliceContains :: "string list \<Rightarrow> string \<Rightarrow> bool" where
  "StringSliceContains [] needle = False"
| "StringSliceContains (v # vs) needle =
     (if v = needle then True else StringSliceContains vs needle)"

section \<open>Headers, tasks and results\<close>

text \<open>
  \<open>http.Header\<close> is a Go map from header names to lists of values. It is modelled as
  an association list with distinct keys: \<open>map_of\<close> is the map index \<open>h[k]\<close>, and the
  order of the list stands for the (unspecified) order in which \<open>range\<close> visits the keys.
\<close>

type_synonym header = "(string \<times> string list) list"

text \<open>
  What can go wrong: the two runtime panics the modelled code can raise, and an error
  value returned to the caller.
\<close>

datatype go_error = Errorf string

datatype failure = IndexOutOfRange | NilDereference | Returned go_error

text \<open>
  \<open>h[k][0]\<close>: indexing the map with a missing key gives the nil slice, and element 0 of
  a nil or empty slice panics.
\<close>

definition first_value :: "header \<Rightarrow> string \<Rightarrow> failure + string" where
  "first_value h k =
     (case map_of h k of
        None \<Rightarrow> Inl IndexOutOfRange
      | Some [] \<Rightarrow> Inl IndexOutOfRange
      | Some (v # vs) \<Rightarrow> Inr v)"

text \<open>
  \<open>textproto.CanonicalMIMEHeaderKey\<close>: a key with a byte that is not a token byte is
  returned as it is; otherwise the first letter and every letter after a hyphen are put
  in upper case and the others in lower case.
\<close>

definition upper_byte :: "char \<Rightarrow> char" where
  "upper_byte c =
     (case map_of (zip ''abcdefghijklmnopqrstuvwxyz'' ''ABCDEFGHIJKLMNOPQRSTUVWXYZ'') c of
        Some l \<Rightarrow> l
      | None \<Rightarrow> c)"

definition validHeaderFieldByte :: "char \<Rightarrow> bool" where
  "validHeaderFieldByte c =
     (c \<in> set ''abcdefghijklmnopqrstuvwxyzABCDEFGHIJKLMNOPQRSTUVWXYZ0123456789''
      \<or> c \<in> set ''!#$%&*+-.^_|~'' \<or> c = CHR 0x27 \<or> c = CHR 0x60)"

fun canonical_bytes :: "bool \<Rightarrow> string \<Rightarrow> string" where
  "canonical_bytes upper [] = []"
| "canonical_bytes upper (c # cs) =
     (let c' = (if upper then upper_byte c else lower_byte c)
      in c' # canonical_bytes (c' = CHR ''-'') cs)"

definition CanonicalMIMEHeaderKey :: "string \<Rightarrow> string" where
  "CanonicalMIMEHeaderKey s =
     (if list_all validHeaderFieldByte s then canonical_bytes True s else s)"

text \<open>\<open>Header.Get(key)\<close>: the first value stored under the canonical form of \<open>key\<close>, or \<open>""\<close>.\<close>

definition Get :: "header \<Rightarrow> string \<Rightarrow> string" where
  "Get h key =
     (case map_of h (CanonicalMIMEHeaderKey key) of
        None \<Rightarrow> []
      | Some [] \<Rightarrow> []
      | Some (v # vs) \<Rightarrow> v)"

text \<open>
  Modelled from the spec: the declaration of \<open>task.Task\<close> is not among the sources. A Task
  has a URL, an effective Host header and a Header mapping. The fields carry the prefix
  \<open>task_\<close> because \<open>Host\<close> is already a field of \<open>url\<close>.
\<close>

record task =
  task_URL :: url
  task_Host :: string
  task_Header :: header

text \<open>
  Modelled from the spec: \<open>Task.Copy\<close> is not among the sources. The copy is deep enough
  that edits of its URL do not reach the original; with values instead of pointers the
  copy is the task itself.
\<close>

definition Copy :: "task \<Rightarrow> task" where
  "Copy t = t"

text \<open>
  Modelled from the spec: the declaration of \<open>results.Result\<close> is not among the sources.
  The fields are those the spec lists and the code reads and writes (\<open>URL\<close> and \<open>Host\<close>
  with the prefix \<open>res_\<close>). \<open>Length\<close> is an \<open>int64\<close> and \<open>Code\<close> an \<open>int\<close>; the code
  only stores and compares them, so both are integers here.
\<close>

datatype LinkClass = LinkUnknown | LinkInternal | LinkExternal

record result =
  res_URL :: url
  res_Host :: string
  Code :: int
  Length :: int
  ContentType :: string
  ResponseHeader :: header
  Redir :: "url option"
  Error :: "go_error option"
  ResultGroup :: string
  Links :: "(url \<times> LinkClass) list"

text \<open>
  Modelled from the spec: \<open>results.NewResultForTask\<close> is not among the sources. The new
  Result is a snapshot of the Task; its \<open>Code\<close> is 0 (no response yet) and every other
  field has Go's zero value.
\<close>

definition NewResultForTask :: "task \<Rightarrow> result" where
  "NewResultForTask t =
     \<lparr>res_URL = task_URL t, res_Host = task_Host t, Code = 0, Length = 0, ContentType = [],
      ResponseHeader = [], Redir = None, Error = None, ResultGroup = [], Links = []\<rparr>"

section \<open>Baselines (package results)\<close>

definition neverImportant :: "string list" where
  "neverImportant = [''etag'', ''cache-control'']"

record BaselineResult =
  Result :: result
  PathSignificant :: bool
  HeadersSignificant :: "string list"
  CodeSignificant :: bool

text \<open>The first loop of \<open>NewBaselineResult\<close>: neighbours \<open>results[i]\<close>, \<open>results[i+1]\<close>.\<close>

fun neighbour_loop :: "result list \<Rightarrow> BaselineResult \<Rightarrow> BaselineResult" where
  "neighbour_loop (a # b # rest) res =
     (let res1 = (if Code a \<noteq> Code b then res\<lparr>CodeSignificant := False\<rparr> else res);
          res2 = (if Path (res_URL a) \<noteq> Path (res_URL b)
                  then res1\<lparr>PathSignificant := False\<rparr> else res1)
      in neighbour_loop (b # rest) res2)"
| "neighbour_loop rs res = res"

text \<open>
  The inner loop over \<open>results[1:]\<close>: it stops with \<open>matches = false\<close> at the first
  sample whose first value of \<open>k\<close> differs from the baseline's, and panics at a sample that
  has no value under \<open>k\<close>.
\<close>

fun header_matches :: "result list \<Rightarrow> string \<Rightarrow> string \<Rightarrow> failure + bool" where
  "header_matches [] k baseline = Inr True"
| "header_matches (r # rs) k baseline =
     (case first_value (ResponseHeader r) k of
        Inl p \<Rightarrow> Inl p
      | Inr v \<Rightarrow> if v \<noteq> baseline then Inr False else header_matches rs k baseline)"

text \<open>
  The loop over the keys of \<open>res.ResponseHeader\<close>. The key is put in lower case first, and
  the lower-case key is the one the maps are indexed with.
\<close>

fun header_loop :: "string list \<Rightarrow> result list \<Rightarrow> BaselineResult \<Rightarrow> failure + BaselineResult" where
  "header_loop [] results res = Inr res"
| "header_loop (k0 # ks) results res =
     (let k = ToLower k0 in
      if StringSliceContains neverImportant k then header_loop ks results res
      else
        (case first_value (ResponseHeader (results ! 0)) k of
           Inl p \<Rightarrow> Inl p
         | Inr baseline \<Rightarrow>
             (case header_matches (drop 1 results) k baseline of
                Inl p \<Rightarrow> Inl p
              | Inr matches \<Rightarrow>
                  header_loop ks results
                    (if matches then res\<lparr>HeadersSignificant := HeadersSignificant res @ [k]\<rparr>
                     else res))))"

definition NewBaselineResult :: "result list \<Rightarrow> failure + BaselineResult" where
  "NewBaselineResult results =
     (if length results = 0 then Inl (Returned (Errorf ''Need at least one result.''))
      else
        (let res = \<lparr>Result = results ! 0, PathSignificant = True, HeadersSignificant = [],
                    CodeSignificant = True\<rparr>;
             res' = neighbour_loop results res
         in header_loop (map fst (ResponseHeader (Result res'))) results res'))"

definition Matches :: "BaselineResult \<Rightarrow> result \<Rightarrow> bool" where
  "Matches b a =
     (if PathSignificant b \<and> Path (res_URL (Result b)) \<noteq> Path (res_URL a) then False
      else if CodeSignificant b \<and> Code (Result b) \<noteq> Code a then False
      else True)"

section \<open>The work filter (package filter)\<close>

text \<open>
  The filter's goroutine is the only reader of its input channel and the only user of
  the \<open>done\<close> map, so a run is a sequential pass over the Tasks in the order in which
  they arrive. The field \<open>done\<close> is called \<open>seen\<close> here (\<open>done\<close> is a keyword of
  Isabelle). What the goroutine does for one Task is recorded as a list of events: each call
  of \<open>util.URLIsSubpath\<close>, each rejection logged by \<open>reject\<close>, each call of the counter
  function and each send on the output channel.
\<close>

record WorkFilter =
  seen :: "string \<rightharpoonup> bool"
  exclusions :: "url list"

datatype event =
    SubpathCheck url url
  | Rejected task string
  | QueueDone int
  | Sent task

definition reject :: "task \<Rightarrow> string \<Rightarrow> event list" where
  "reject u reason = [Rejected u reason, QueueDone 1]"

text \<open>
  The loop over the exclusions: the checks made, and whether one of them held (the loop
  leaves at the first that does).
\<close>

fun exclusion_loop :: "url list \<Rightarrow> task \<Rightarrow> event list \<times> bool" where
  "exclusion_loop [] t = ([], False)"
| "exclusion_loop (exclusion # rest) t =
     (if URLIsSubpath exclusion (task_URL t) then ([SubpathCheck exclusion (task_URL t)], True)
      else (let (evs, excluded) = exclusion_loop rest t
            in (SubpathCheck exclusion (task_URL t) # evs, excluded)))"

text \<open>
  One turn of \<open>taskLoop\<close>. \<open>String\<close> stands for \<open>Task.String\<close>, which is not among the
  sources; it is a parameter, and the key is whatever it returns for the Task with its
  fragment cleared.
\<close>

definition filter_task ::
  "(task \<Rightarrow> string) \<Rightarrow> WorkFilter \<Rightarrow> task \<Rightarrow> WorkFilter \<times> event list" where
  "filter_task String f t0 =
     (let t = t0\<lparr>task_URL := (task_URL t0)\<lparr>Fragment := []\<rparr>\<rparr>;
          taskURL = String t
      in if taskURL \<in> dom (seen f) then (f, reject t ''already done'')
         else
           (let f' = f\<lparr>seen := (seen f)(taskURL \<mapsto> True)\<rparr>;
                (checks, excluded) = exclusion_loop (exclusions f') t
            in if excluded then (f', checks @ reject t ''excluded'')
               else (f', checks @ [Sent t])))"

text \<open>
  \<open>RunFilter\<close> on the Tasks read from \<open>src\<close> until it is closed: the filter afterwards and,
  for each Task in order, the events of its turn.
\<close>

fun RunFilter ::
  "(task \<Rightarrow> string) \<Rightarrow> WorkFilter \<Rightarrow> task list \<Rightarrow> WorkFilter \<times> event list list" where
  "RunFilter String f [] = (f, [])"
| "RunFilter String f (t # ts) =
     (let (f', evs) = filter_task String f t;
          (f'', rest) = RunFilter String f' ts
      in (f'', evs # rest))"

text \<open>The canonical key of a Task, and what a turn means for the Task.\<close>

definition canonical_key :: "(task \<Rightarrow> string) \<Rightarrow> task \<Rightarrow> string" where
  "canonical_key String t = String (t\<lparr>task_URL := (task_URL t)\<lparr>Fragment := []\<rparr>\<rparr>)"

fun is_Sent :: "event \<Rightarrow> bool" where
  "is_Sent (Sent t) = True"
| "is_Sent e = False"

fun is_SubpathCheck :: "event \<Rightarrow> bool" where
  "is_SubpathCheck (SubpathCheck a b) = True"
| "is_SubpathCheck e = False"

fun is_Rejected_for :: "string \<Rightarrow> event \<Rightarrow> bool" where
  "is_Rejected_for reason (Rejected t r) = (r = reason)"
| "is_Rejected_for reason e = False"

definition emitted :: "event list \<Rightarrow> bool" where
  "emitted evs = list_ex is_Sent evs"

definition decrements :: "event list \<Rightarrow> nat" where
  "decrements evs = length (filter (\<lambda>e. e = QueueDone 1) evs)"

section \<open>The worker (package worker)\<close>

datatype RunMode = RunModeEnumeration | RunModeLinkCheck | RunModeDotProduct

text \<open>
  The settings the worker reads (package alias \<open>ss\<close>). \<open>SleepTime\<close> only delays the
  worker and is left out.
\<close>

record ScanSettings =
  ss_Mangle :: bool
  ss_Method :: string
  ss_RunMode :: RunMode
  ss_SpiderCodes :: "int list"

text \<open>\<open>http.Response\<close> and \<open>http.Request\<close>, with the fields the worker reads.\<close>

record response =
  StatusCode :: int
  ContentLength :: int
  resp_Header :: header
  Body :: string

record request =
  req_URL :: url

text \<open>
  The \<open>PageWorker\<close> interface. \<open>Handle\<close> may add links to the Result and pass new Tasks
  to the queue's add function: it returns the Result as it left it and those Tasks.
\<close>

record PageWorker =
  Eligible :: "response \<Rightarrow> bool"
  Handle :: "task \<Rightarrow> string \<Rightarrow> result \<Rightarrow> result \<times> task list"

text \<open>
  The worker. \<open>client\<close> is the \<open>Request\<close> method of the HTTP client: given the number of
  requests made before (so that answers may change over time) and the arguments, it returns
  the response pointer, the error, and the request that it handed to the redirect handler
  installed by \<open>NewWorker\<close>, if it called the handler. The handler stores that request in
  \<open>redir\<close>. The effects of the worker are kept in three logs: \<open>requests\<close> (the calls of
  \<open>client.Request\<close>), \<open>added\<close> (the Tasks passed to \<open>adder\<close>) and \<open>rchan\<close> (the Results
  sent on the results channel); \<open>finished\<close> sums the arguments of the calls of \<open>w.done\<close>.
\<close>

type_synonym request_args = "url \<times> string \<times> string \<times> header"

record Worker =
  client :: "nat \<Rightarrow> request_args \<Rightarrow> response option \<times> go_error option \<times> request option"
  settings :: ScanSettings
  pageWorker :: "PageWorker option"
  redir :: "request option"
  requests :: "request_args list"
  added :: "task list"
  rchan :: "result list"
  finished :: int

fun code_in :: "int \<Rightarrow> int list \<Rightarrow> bool" where
  "code_in code [] = False"
| "code_in code (v # vs) = (if code = v then True else code_in code vs)"

definition KeepSpidering :: "Worker \<Rightarrow> int \<Rightarrow> bool" where
  "KeepSpidering w code =
     (if ss_RunMode (settings w) = RunModeDotProduct then False
      else code_in code (ss_SpiderCodes (settings w)))"

definition ResultForResponse :: "Worker \<Rightarrow> task \<Rightarrow> response \<Rightarrow> result" where
  "ResultForResponse w t resp =
     (let rv = NewResultForTask t;
          rv = rv\<lparr>Code := StatusCode resp\<rparr>;
          rv = rv\<lparr>Length := ContentLength resp\<rparr>;
          rv = rv\<lparr>ContentType := Get (resp_Header resp) ''Content-Type''\<rparr>;
          rv = rv\<lparr>ResponseHeader := resp_Header resp\<rparr>
      in case redir w of
           Some r \<Rightarrow> rv\<lparr>Redir := Some (req_URL r)\<rparr>
         | None \<Rightarrow> rv)"

definition ResultForError :: "Worker \<Rightarrow> task \<Rightarrow> response option \<Rightarrow> go_error \<Rightarrow> result" where
  "ResultForError w t resp err =
     (let rv = (case resp of
                  Some r \<Rightarrow> ResultForResponse w t r
                | None \<Rightarrow> NewResultForTask t)
      in rv\<lparr>Error := Some err\<rparr>)"

definition spiderRedirect :: "Worker \<Rightarrow> task \<Rightarrow> Worker" where
  "spiderRedirect w t =
     (case redir w of
        None \<Rightarrow> w
      | Some r \<Rightarrow> w\<lparr>added := added w @ [(Copy t)\<lparr>task_URL := req_URL r\<rparr>]\<rparr>)"

definition runPageWorkers :: "Worker \<Rightarrow> task \<Rightarrow> response \<Rightarrow> result \<Rightarrow> Worker \<times> result" where
  "runPageWorkers w t resp res =
     (case pageWorker w of
        None \<Rightarrow> (w, res)
      | Some pw \<Rightarrow>
          if Eligible pw resp then
            (let (res', new) = Handle pw t (Body resp) res
             in (w\<lparr>added := added w @ new\<rparr>, res'))
          else (w, res))"

text \<open>
  \<open>TryTask\<close>. In the second branch \<open>defer resp.Body.Close()\<close> dereferences \<open>resp\<close>, which
  panics when the client returned no response. The result is the returned code and the
  worker afterwards.
\<close>

definition TryTask :: "Worker \<Rightarrow> task \<Rightarrow> failure + int \<times> Worker" where
  "TryTask w0 t =
     (let w = w0\<lparr>redir := None\<rparr>;
          method = ss_Method (settings w);
          args = (task_URL t, task_Host t, method, task_Header t);
          (resp, err, captured) = client w (length (requests w)) args;
          w = w\<lparr>requests := requests w @ [args], redir := captured\<rparr>
      in if err \<noteq> None \<and> redir w = None then
           (let res = ResultForError w t resp (the err);
                w = w\<lparr>rchan := rchan w @ [res]\<rparr>
            in case resp of
                 None \<Rightarrow> Inr (0, w)
               | Some r \<Rightarrow> Inr (StatusCode r, w))
         else
           (case resp of
              None \<Rightarrow> Inl NilDereference
            | Some r \<Rightarrow>
                (let w = (if URLIsDir (task_URL t) \<and> KeepSpidering w (StatusCode r)
                          then w\<lparr>added := added w @ [t]\<rparr> else w);
                     w = spiderRedirect w t;
                     res = ResultForResponse w t r;
                     (w, res) = runPageWorkers w t r res;
                     w = w\<lparr>rchan := rchan w @ [res]\<rparr>
                 in Inr (StatusCode r, w))))"

text \<open>
  \<open>fmt.Sprintf(rule, basename)\<close> for a format with the verb \<open>%s\<close> and one string
  argument: the verb is replaced by the argument.
\<close>

fun Sprintf :: "string \<Rightarrow> string \<Rightarrow> string" where
  "Sprintf [] arg = []"
| "Sprintf [c] arg = [c]"
| "Sprintf (c # d # rest) arg =
     (if c = CHR ''%'' \<and> d = CHR ''s'' then arg @ Sprintf rest arg
      else c # Sprintf (d # rest) arg)"

definition mangleRules :: "string list" where
  "mangleRules = [''.%s.swp'', ''%s~'', ''%s.bak'', ''%s.orig'']"

definition Mangle :: "string \<Rightarrow> string list" where
  "Mangle basename = map (\<lambda>rule. Sprintf rule basename) mangleRules"

text \<open>The loop of \<open>TryMangleTask\<close> over the new names; a panic of \<open>TryTask\<close> ends it.\<close>

fun mangle_loop :: "Worker \<Rightarrow> task \<Rightarrow> string \<Rightarrow> string list \<Rightarrow> failure + Worker" where
  "mangle_loop w clone dirname [] = Inr w"
| "mangle_loop w clone dirname (newname # rest) =
     (let clone' = Copy clone;
          clone' = clone'\<lparr>task_URL := (task_URL clone')\<lparr>Path := dirname @ ''/'' @ newname\<rparr>\<rparr>
      in case TryTask w clone' of
           Inl p \<Rightarrow> Inl p
         | Inr (code, w') \<Rightarrow> mangle_loop w' clone dirname rest)"

definition TryMangleTask :: "Worker \<Rightarrow> task \<Rightarrow> failure + Worker" where
  "TryMangleTask w t =
     (if \<not> ss_Mangle (settings w) then Inr w
      else
        (let clone = Copy t;
             spos = LastIndex (Path (task_URL clone)) CHR ''/''
         in if spos = - 1 then Inr w
            else
              (let dirname = take (nat spos) (Path (task_URL clone));
                   basename = drop (nat (spos + 1)) (Path (task_URL clone))
               in mangle_loop w clone dirname (Mangle basename))))"

definition HandleTask :: "Worker \<Rightarrow> task \<Rightarrow> failure + Worker" where
  "HandleTask w t =
     (case TryTask w t of
        Inl p \<Rightarrow> Inl p
      | Inr (code, w1) \<Rightarrow>
          (case (if \<not> URLIsDir (task_URL t) \<and> KeepSpidering w1 code
                 then TryMangleTask w1 t else Inr w1) of
             Inl p \<Rightarrow> Inl p
           | Inr w2 \<Rightarrow> Inr (w2\<lparr>finished := finished w2 + 1\<rparr>)))"




subsection \<open>The HTML worker\<close>



section \<open>Notions of the specification\<close>



text \<open>
  The proper ancestor directories of a path, the root excluded: the proper prefixes of the
  path that end just before one of its slashes, from the shortest to the longest, without
  the empty prefix and without \<open>/\<close>, which both stand for the root.
\<close>

definition ancestor_dirs :: "string \<Rightarrow> string list" where
  "ancestor_dirs path =
     filter (\<lambda>d. d \<noteq> ''/'')
       (map (\<lambda>n. take n path)
          (filter (\<lambda>n. path ! n = CHR ''/'') [1 ..< length path]))"

section \<open>Example inputs\<close>

text \<open>Concrete URLs, Tasks, Results and workers on which the code is evaluated below.\<close>

definition example_url :: "string \<Rightarrow> url" where
  "example_url path =
     \<lparr>Scheme = ''http'', Opaque = [], User = None, Host = ''h'', Path = path,
      RawPath = [], ForceQuery = False, RawQuery = [], Fragment = []\<rparr>"

definition example_task :: "string \<Rightarrow> task" where
  "example_task path = \<lparr>task_URL = example_url path, task_Host = ''h'', task_Header = []\<rparr>"

definition sample :: "string \<Rightarrow> int \<Rightarrow> header \<Rightarrow> result" where
  "sample path code h =
     \<lparr>res_URL = example_url path, res_Host = ''h'', Code = code, Length = - 1,
      ContentType = [], ResponseHeader = h, Redir = None, Error = None, ResultGroup = ''g'',
      Links = []\<rparr>"

definition example_worker ::
  "(nat \<Rightarrow> request_args \<Rightarrow> response option \<times> go_error option \<times> request option) \<Rightarrow> Worker" where
  "example_worker c =
     \<lparr>client = c,
      settings = \<lparr>ss_Mangle = True, ss_Method = ''GET'', ss_RunMode = RunModeEnumeration,
                  ss_SpiderCodes = [200]\<rparr>,
      pageWorker = None, redir = None, requests = [], added = [], rchan = [], finished = 0\<rparr>"

definition example_response :: "int \<Rightarrow> response" where
  "example_response code =
     \<lparr>StatusCode = code, ContentLength = - 1, resp_Header = [], Body = []\<rparr>"

section \<open>Properties of the string functions\<close>

lemma TrimRight_idem: "TrimRight (TrimRight s cs) cs = TrimRight s cs"
proof -
  have "dropWhile (\<lambda>c. c \<in> set cs) (dropWhile (\<lambda>c. c \<in> set cs) (rev s))
      = dropWhile (\<lambda>c. c \<in> set cs) (rev s)"
    by (rule dropWhile_idem)
  then show ?thesis by (simp add: TrimRight_def)
qed

lemma Split_not_Nil: "Split s sep \<noteq> []"
  by (cases s) auto

lemma Split_no_sep: "sep \<notin> set s \<Longrightarrow> Split s sep = [s]"
  by (induction s) auto

lemma Split_append_sep: "sep \<notin> set s \<Longrightarrow> Split (s @ sep # rest) sep = s # Split rest sep"
  by (induction s) auto

lemma map_Path_GetParentPaths:
  "map Path (GetParentPaths u) = getParentPathsString (TrimRight (Path u) ''/'')"
  by (simp add: GetParentPaths_def o_def)

section \<open>Parent paths\<close>

text \<open>
  C10. Every URL that \<open>GetParentPaths u\<close> returns is \<open>u\<close> with another \<open>Path\<close>: scheme,
  opaque part, user info, host, raw path, query and fragment are those of \<open>u\<close>.
\<close>

theorem GetParentPaths_frame:
  "\<forall>p \<in> set (GetParentPaths u).
     Scheme p = Scheme u \<and> Opaque p = Opaque u \<and> User p = User u \<and> Host p = Host u \<and>
     RawPath p = RawPath u \<and> ForceQuery p = ForceQuery u \<and> RawQuery p = RawQuery u \<and>
     Fragment p = Fragment u \<and> p = u\<lparr>Path := Path p\<rparr>"
  by (auto simp: GetParentPaths_def)

theorem GetParentPaths_frame_witness:
  "GetParentPaths \<lparr>Scheme = ''http'', Opaque = [], User = Some (''me'', None), Host = ''h'',
      Path = ''/a/b/c'', RawPath = [], ForceQuery = False, RawQuery = ''q=1'',
      Fragment = ''top''\<rparr>
   = [\<lparr>Scheme = ''http'', Opaque = [], User = Some (''me'', None), Host = ''h'',
       Path = ''/a'', RawPath = [], ForceQuery = False, RawQuery = ''q=1'',
       Fragment = ''top''\<rparr>,
      \<lparr>Scheme = ''http'', Opaque = [], User = Some (''me'', None), Host = ''h'',
       Path = ''/a/b'', RawPath = [], ForceQuery = False, RawQuery = ''q=1'',
       Fragment = ''top''\<rparr>]"
  using GetParentPaths_frame [of "\<lparr>Scheme = ''http'', Opaque = [], User = Some (''me'', None),
      Host = ''h'', Path = ''/a/b/c'', RawPath = [], ForceQuery = False, RawQuery = ''q=1'',
      Fragment = ''top''\<rparr>"]
  by (simp add: GetParentPaths_def getParentPathsString_def TrimRight_def slash_def
      upt_conv_Cons)

section \<open>The HTML worker's eligibility test\<close>








section \<open>Baselines\<close>

lemma ToLower_server: "ToLower ''server'' = ''server''"
  by (simp add: ToLower_def lower_byte_def)

lemma ToLower_Content_Type: "ToLower ''Content-Type'' = ''content-type''"
  by (simp add: ToLower_def lower_byte_def)

text \<open>
  C1. \<open>Matches\<close> compares the path and the status code only. The baseline that
  \<open>NewBaselineResult\<close> derives from one sample with the header \<open>server: nginx\<close> marks
  \<open>server\<close> as significant, and yet it matches a Result with the same path and code whose
  \<open>server\<close> header is \<open>apache\<close>.
\<close>

theorem Matches_ignores_significant_header:
  "NewBaselineResult [sample ''/404'' 404 [(''server'', [''nginx''])]]
     = Inr \<lparr>Result = sample ''/404'' 404 [(''server'', [''nginx''])], PathSignificant = True,
            HeadersSignificant = [''server''], CodeSignificant = True\<rparr>
   \<and> Matches \<lparr>Result = sample ''/404'' 404 [(''server'', [''nginx''])], PathSignificant = True,
            HeadersSignificant = [''server''], CodeSignificant = True\<rparr>
        (sample ''/404'' 404 [(''server'', [''apache''])])
   \<and> first_value (ResponseHeader (sample ''/404'' 404 [(''server'', [''apache''])])) ''server''
       = Inr ''apache''
   \<and> first_value (ResponseHeader (sample ''/404'' 404 [(''server'', [''nginx''])])) ''server''
       = Inr ''nginx''"
  by (simp add: NewBaselineResult_def Matches_def sample_def first_value_def ToLower_server
      neverImportant_def Let_def)

text \<open>
  C2. \<open>NewBaselineResult\<close> indexes the header maps with the lower-case key. A sample whose
  header map has the key \<open>Content-Type\<close>, as every map filled by \<open>net/http\<close> has, holds
  nothing under \<open>content-type\<close>: element 0 of the missing entry is read and the call
  panics instead of returning a baseline.
\<close>

theorem NewBaselineResult_panics_on_canonical_key:
  "NewBaselineResult [sample ''/404'' 404 [(''Content-Type'', [''text/html''])]]
     = Inl IndexOutOfRange"
  by (simp add: NewBaselineResult_def sample_def first_value_def ToLower_Content_Type
      neverImportant_def Let_def)

text \<open>
  What \<open>NewBaselineResult\<close> returns when it does not panic, and when that is. A returned
  baseline holds the first sample; the code and the path are significant exactly when all
  samples agree on them; the significant headers are the lower-case keys of the first
  sample, outside \<open>neverImportant\<close>, under which all samples have the same first value.
  The call returns as soon as every sample has a value under each of these lower-case keys,
  so the panic at a key with a capital letter is the only way in which it fails on one
  sample.
\<close>

lemma StringSliceContains_set: "StringSliceContains hs n \<longleftrightarrow> n \<in> set hs"
  by (induction hs) auto

lemma neighbour_loop_flags:
  "rs \<noteq> [] \<Longrightarrow>
   (CodeSignificant (neighbour_loop rs res)
      \<longleftrightarrow> CodeSignificant res \<and> (\<forall>r \<in> set rs. Code r = Code (hd rs)))
   \<and> (PathSignificant (neighbour_loop rs res)
      \<longleftrightarrow> PathSignificant res \<and> (\<forall>r \<in> set rs. Path (res_URL r) = Path (res_URL (hd rs))))
   \<and> HeadersSignificant (neighbour_loop rs res) = HeadersSignificant res
   \<and> Result (neighbour_loop rs res) = Result res"
  by (induction rs res rule: neighbour_loop.induct) (auto simp: Let_def)

lemma header_matches_result:
  "header_matches rs k baseline = Inr m \<Longrightarrow>
   m = (\<forall>r \<in> set rs. first_value (ResponseHeader r) k = Inr baseline)"
  by (induction rs) (auto split: sum.splits if_splits)

lemma header_loop_result:
  "header_loop ks rs res = Inr b \<Longrightarrow>
   Result b = Result res \<and> CodeSignificant b = CodeSignificant res \<and>
   PathSignificant b = PathSignificant res \<and>
   HeadersSignificant b = HeadersSignificant res
     @ filter (\<lambda>k. \<forall>r \<in> set rs. first_value (ResponseHeader r) k
                                    = first_value (ResponseHeader (rs ! 0)) k)
         (filter (\<lambda>k. k \<notin> set neverImportant) (map ToLower ks))"
proof (induction ks arbitrary: res)
  case Nil
  then show ?case by simp
next
  case (Cons k0 ks)
  show ?case
  proof (cases "ToLower k0 \<in> set neverImportant")
    case True
    with Cons show ?thesis
      by (simp add: StringSliceContains_set Let_def)
  next
    case False
    with Cons.prems obtain baseline m where
      bl: "first_value (ResponseHeader (rs ! 0)) (ToLower k0) = Inr baseline"
      and hm: "header_matches (drop 1 rs) (ToLower k0) baseline = Inr m"
      and rec: "header_loop ks rs
                  (if m then res\<lparr>HeadersSignificant := HeadersSignificant res @ [ToLower k0]\<rparr>
                   else res) = Inr b"
      by (auto simp: StringSliceContains_set Let_def split: sum.splits)
    from header_matches_result [OF hm]
    have m: "m = (\<forall>r \<in> set (drop 1 rs). first_value (ResponseHeader r) (ToLower k0) = Inr baseline)" .
    have all: "(\<forall>r \<in> set rs. first_value (ResponseHeader r) (ToLower k0)
                  = first_value (ResponseHeader (rs ! 0)) (ToLower k0)) = m"
    proof (cases rs)
      case Nil
      with m show ?thesis by simp
    next
      case (Cons r0 rest)
      with m bl show ?thesis by auto
    qed
    from Cons.IH [OF rec] False all show ?thesis
      by (cases m) simp_all
  qed
qed

lemma NewBaselineResult_returned:
  assumes "NewBaselineResult rs = Inr b"
  shows "rs \<noteq> [] \<and> Result b = hd rs
       \<and> (CodeSignificant b \<longleftrightarrow> (\<forall>r \<in> set rs. Code r = Code (hd rs)))
       \<and> (PathSignificant b \<longleftrightarrow> (\<forall>r \<in> set rs. Path (res_URL r) = Path (res_URL (hd rs))))
       \<and> HeadersSignificant b
           = filter (\<lambda>k. \<forall>r \<in> set rs. first_value (ResponseHeader r) k
                                        = first_value (ResponseHeader (hd rs)) k)
               (filter (\<lambda>k. k \<notin> set neverImportant)
                  (map ToLower (map fst (ResponseHeader (hd rs)))))"
proof -
  from assms have ne: "rs \<noteq> []"
    by (auto simp: NewBaselineResult_def)
  then have hd: "rs ! 0 = hd rs" by (simp add: hd_conv_nth)
  let ?res = "\<lparr>Result = rs ! 0, PathSignificant = True, HeadersSignificant = [],
               CodeSignificant = True\<rparr>"
  let ?res' = "neighbour_loop rs ?res"
  from assms ne have loop: "header_loop (map fst (ResponseHeader (Result ?res'))) rs ?res' = Inr b"
    by (simp add: NewBaselineResult_def Let_def)
  note n = neighbour_loop_flags [OF ne, of ?res]
  from header_loop_result [OF loop] n hd ne show ?thesis
    by simp
qed


lemma header_matches_returns:
  "\<forall>r \<in> set rs. \<exists>v. first_value (ResponseHeader r) k = Inr v \<Longrightarrow>
   \<exists>m. header_matches rs k baseline = Inr m"
  by (induction rs) auto

lemma header_loop_returns:
  assumes "rs \<noteq> []"
    and "\<forall>k \<in> set ks. ToLower k \<notin> set neverImportant \<longrightarrow>
           (\<forall>r \<in> set rs. \<exists>v. first_value (ResponseHeader r) (ToLower k) = Inr v)"
  shows "\<exists>b. header_loop ks rs res = Inr b"
  using assms(2)
proof (induction ks arbitrary: res)
  case Nil
  then show ?case by simp
next
  case (Cons k0 ks)
  from Cons.prems have rest: "\<forall>k \<in> set ks. ToLower k \<notin> set neverImportant \<longrightarrow>
           (\<forall>r \<in> set rs. \<exists>v. first_value (ResponseHeader r) (ToLower k) = Inr v)"
    by simp
  show ?case
  proof (cases "ToLower k0 \<in> set neverImportant")
    case True
    with Cons.IH [OF rest] show ?thesis
      by (simp add: StringSliceContains_set Let_def)
  next
    case False
    with Cons.prems have vals: "\<forall>r \<in> set rs. \<exists>v. first_value (ResponseHeader r) (ToLower k0) = Inr v"
      by simp
    from assms(1) have "rs ! 0 \<in> set rs" by simp
    with vals obtain baseline where
      bl: "first_value (ResponseHeader (rs ! 0)) (ToLower k0) = Inr baseline" by blast
    from vals have "\<forall>r \<in> set (drop 1 rs). \<exists>v. first_value (ResponseHeader r) (ToLower k0) = Inr v"
      by (meson in_set_dropD)
    from header_matches_returns [OF this] obtain m where
      hm: "header_matches (drop 1 rs) (ToLower k0) baseline = Inr m" by blast
    from Cons.IH [OF rest] False bl hm show ?thesis
      by (simp add: StringSliceContains_set Let_def)
  qed
qed

lemma NewBaselineResult_returns:
  assumes "rs \<noteq> []"
    and "\<forall>k \<in> set (map fst (ResponseHeader (hd rs))). ToLower k \<notin> set neverImportant \<longrightarrow>
           (\<forall>r \<in> set rs. \<exists>v. first_value (ResponseHeader r) (ToLower k) = Inr v)"
  shows "\<exists>b. NewBaselineResult rs = Inr b"
proof -
  let ?res = "\<lparr>Result = rs ! 0, PathSignificant = True, HeadersSignificant = [],
               CodeSignificant = True\<rparr>"
  from assms(1) have hd: "rs ! 0 = hd rs" by (simp add: hd_conv_nth)
  from neighbour_loop_flags [OF assms(1), of ?res] hd
  have "Result (neighbour_loop rs ?res) = hd rs" by simp
  with header_loop_returns [OF assms(1), of "map fst (ResponseHeader (hd rs))"
      "neighbour_loop rs ?res"] assms(1,2)
  show ?thesis
    by (simp add: NewBaselineResult_def Let_def)
qed

section \<open>The worker\<close>

text \<open>
  C4. When \<open>Request\<close> returns an error and the redirect handler was not called,
  \<open>TryTask\<close> returns normally, having made that one request and sent exactly one Result:
  the Result of the Task, with \<open>Error\<close> set to the error and \<open>Code\<close> equal to the returned
  code, which is the status code of the response if there is one and 0 otherwise. Nothing
  is added to the work queue.
\<close>

theorem TryTask_error_result:
  assumes "client w (length (requests w))
             (task_URL t, task_Host t, ss_Method (settings w), task_Header t)
           = (resp, Some err, None)"
  shows "\<exists>res w'.
           TryTask w t = Inr ((case resp of None \<Rightarrow> 0 | Some r \<Rightarrow> StatusCode r), w')
         \<and> rchan w' = rchan w @ [res]
         \<and> Error res = Some err
         \<and> Code res = (case resp of None \<Rightarrow> 0 | Some r \<Rightarrow> StatusCode r)
         \<and> res_URL res = task_URL t \<and> res_Host res = task_Host t
         \<and> requests w'
             = requests w @ [(task_URL t, task_Host t, ss_Method (settings w), task_Header t)]
         \<and> added w' = added w"
proof (cases resp)
  case None
  with assms show ?thesis
    by (simp add: TryTask_def ResultForError_def NewResultForTask_def)
next
  case (Some r)
  with assms show ?thesis
    by (simp add: TryTask_def ResultForError_def ResultForResponse_def NewResultForTask_def)
qed

theorem TryTask_error_result_witness:
  "(\<exists>res w'.
      TryTask (example_worker (\<lambda>n args. (None, Some (Errorf ''timeout''), None)))
        (example_task ''/a'') = Inr (0, w')
      \<and> rchan w' = [res] \<and> Error res = Some (Errorf ''timeout'') \<and> Code res = 0
      \<and> length (requests w') = 1)
   \<and> (\<exists>res w'.
      TryTask (example_worker
                (\<lambda>n args. (Some (example_response 502), Some (Errorf ''EOF''), None)))
        (example_task ''/a'') = Inr (502, w')
      \<and> rchan w' = [res] \<and> Error res = Some (Errorf ''EOF'') \<and> Code res = 502
      \<and> length (requests w') = 1)"
proof -
  let ?w1 = "example_worker (\<lambda>n args. (None, Some (Errorf ''timeout''), None))"
  let ?w2 = "example_worker
               (\<lambda>n args. (Some (example_response 502), Some (Errorf ''EOF''), None))"
  let ?t = "example_task ''/a''"
  have h1: "client ?w1 (length (requests ?w1))
              (task_URL ?t, task_Host ?t, ss_Method (settings ?w1), task_Header ?t)
            = (None, Some (Errorf ''timeout''), None)"
    by (simp add: example_worker_def)
  have h2: "client ?w2 (length (requests ?w2))
              (task_URL ?t, task_Host ?t, ss_Method (settings ?w2), task_Header ?t)
            = (Some (example_response 502), Some (Errorf ''EOF''), None)"
    by (simp add: example_worker_def)
  from TryTask_error_result [OF h1] obtain res1 w1 where
    "TryTask ?w1 ?t = Inr (0, w1)" "rchan w1 = rchan ?w1 @ [res1]"
    "Error res1 = Some (Errorf ''timeout'')" "Code res1 = 0"
    "requests w1 = requests ?w1
       @ [(task_URL ?t, task_Host ?t, ss_Method (settings ?w1), task_Header ?t)]"
    by auto
  then have a: "TryTask ?w1 ?t = Inr (0, w1) \<and> rchan w1 = [res1]
      \<and> Error res1 = Some (Errorf ''timeout'') \<and> Code res1 = 0 \<and> length (requests w1) = 1"
    by (simp add: example_worker_def)
  from TryTask_error_result [OF h2] obtain res2 w2 where
    "TryTask ?w2 ?t = Inr (StatusCode (example_response 502), w2)"
    "rchan w2 = rchan ?w2 @ [res2]"
    "Error res2 = Some (Errorf ''EOF'')" "Code res2 = StatusCode (example_response 502)"
    "requests w2 = requests ?w2
       @ [(task_URL ?t, task_Host ?t, ss_Method (settings ?w2), task_Header ?t)]"
    by auto
  then have b: "TryTask ?w2 ?t = Inr (502, w2) \<and> rchan w2 = [res2]
      \<and> Error res2 = Some (Errorf ''EOF'') \<and> Code res2 = 502 \<and> length (requests w2) = 1"
    by (simp add: example_worker_def example_response_def)
  from a b show ?thesis by blast
qed

section \<open>The work filter\<close>

lemma example_simps:
  "Path (example_url p) = p"
  "(example_url p)\<lparr>Fragment := []\<rparr> = example_url p"
  "task_URL (example_task p) = example_url p"
  "(example_task p)\<lparr>task_URL := example_url p\<rparr> = example_task p"
  by (simp_all add: example_url_def example_task_def)

lemma URLIsSubpath_example_root: "URLIsSubpath (example_url ''/'') (example_url p)"
  by (simp add: URLIsSubpath_def example_url_def)

lemma exclusion_loop_checks: "\<forall>e \<in> set (fst (exclusion_loop es t)). is_SubpathCheck e"
  by (induction es) (auto split: prod.splits)

lemma filter_task_cases:
  "filter_task String f t = (f', evs) \<Longrightarrow>
     (canonical_key String t \<in> dom (seen f) \<and> f' = f \<and>
        evs = reject (t\<lparr>task_URL := (task_URL t)\<lparr>Fragment := []\<rparr>\<rparr>) ''already done'')
   \<or> (canonical_key String t \<notin> dom (seen f) \<and>
        f' = f\<lparr>seen := (seen f)(canonical_key String t \<mapsto> True)\<rparr> \<and>
        (\<exists>checks. (\<forall>e \<in> set checks. is_SubpathCheck e) \<and>
           (evs = checks @ reject (t\<lparr>task_URL := (task_URL t)\<lparr>Fragment := []\<rparr>\<rparr>) ''excluded''
            \<or> evs = checks @ [Sent (t\<lparr>task_URL := (task_URL t)\<lparr>Fragment := []\<rparr>\<rparr>)])))"
  using exclusion_loop_checks [of "exclusions f" "t\<lparr>task_URL := (task_URL t)\<lparr>Fragment := []\<rparr>\<rparr>"]
  by (auto simp: filter_task_def canonical_key_def Let_def split: if_splits prod.splits)

lemma filter_task_seen:
  "filter_task String f t = (f', evs) \<Longrightarrow>
     dom (seen f') = insert (canonical_key String t) (dom (seen f))"
proof -
  assume "filter_task String f t = (f', evs)"
  from filter_task_cases [OF this] show ?thesis
    by (elim disjE conjE exE) (simp_all add: insert_absorb)
qed

lemma filter_task_duplicate:
  "canonical_key String t \<in> dom (seen f) \<Longrightarrow>
   filter_task String f t
     = (f, reject (t\<lparr>task_URL := (task_URL t)\<lparr>Fragment := []\<rparr>\<rparr>) ''already done'')"
  by (simp add: filter_task_def canonical_key_def Let_def)

lemma RunFilter_length: "RunFilter String f ts = (f', evss) \<Longrightarrow> length evss = length ts"
  by (induction ts arbitrary: f f' evss) (auto split: prod.splits)

lemma RunFilter_seen:
  "RunFilter String f ts = (f', evss) \<Longrightarrow>
     dom (seen f') = dom (seen f) \<union> canonical_key String ` set ts"
proof (induction ts arbitrary: f f' evss)
  case Nil
  then show ?case by simp
next
  case (Cons t ts)
  obtain f1 evs where s: "filter_task String f t = (f1, evs)" by (cases "filter_task String f t")
  obtain f2 rest where r: "RunFilter String f1 ts = (f2, rest)" by (cases "RunFilter String f1 ts")
  from Cons.prems s r have "f' = f2" by simp
  with Cons.IH [OF r] filter_task_seen [OF s] show ?case by auto
qed

lemma RunFilter_seen_before:
  "RunFilter String f ts = (f', evss) \<Longrightarrow> j < length ts \<Longrightarrow>
   canonical_key String (ts ! j) \<in> dom (seen f) \<Longrightarrow>
   evss ! j = reject ((ts ! j)\<lparr>task_URL := (task_URL (ts ! j))\<lparr>Fragment := []\<rparr>\<rparr>) ''already done''"
proof (induction ts arbitrary: f f' evss j)
  case Nil
  then show ?case by simp
next
  case (Cons t ts)
  obtain f1 evs where s: "filter_task String f t = (f1, evs)" by (cases "filter_task String f t")
  obtain f2 rest where r: "RunFilter String f1 ts = (f2, rest)" by (cases "RunFilter String f1 ts")
  from Cons.prems(1) s r have e: "evss = evs # rest" by simp
  show ?case
  proof (cases j)
    case 0
    with Cons.prems(3) s e show ?thesis by (simp add: filter_task_duplicate)
  next
    case (Suc j')
    with Cons.prems(2) have lt: "j' < length ts" by simp
    from Cons.prems(3) Suc filter_task_seen [OF s]
    have "canonical_key String (ts ! j') \<in> dom (seen f1)" by simp
    from Cons.IH [OF r lt this] show ?thesis using e Suc by simp
  qed
qed

lemma RunFilter_later_duplicate:
  "RunFilter String f ts = (f', evss) \<Longrightarrow> i < j \<Longrightarrow> j < length ts \<Longrightarrow>
   canonical_key String (ts ! i) = canonical_key String (ts ! j) \<Longrightarrow>
   evss ! j = reject ((ts ! j)\<lparr>task_URL := (task_URL (ts ! j))\<lparr>Fragment := []\<rparr>\<rparr>) ''already done''"
proof (induction ts arbitrary: f f' evss i j)
  case Nil
  then show ?case by simp
next
  case (Cons t ts)
  obtain f1 evs where s: "filter_task String f t = (f1, evs)" by (cases "filter_task String f t")
  obtain f2 rest where r: "RunFilter String f1 ts = (f2, rest)" by (cases "RunFilter String f1 ts")
  from Cons.prems(1) s r have e: "evss = evs # rest" by simp
  from Cons.prems(2) obtain j' where j: "j = Suc j'" by (cases j) auto
  with Cons.prems(3) have lt: "j' < length ts" by simp
  show ?case
  proof (cases i)
    case 0
    with Cons.prems(4) j filter_task_seen [OF s]
    have "canonical_key String (ts ! j') \<in> dom (seen f1)" by simp
    from RunFilter_seen_before [OF r lt this] show ?thesis using e j by simp
  next
    case (Suc i')
    with Cons.prems(2) j have "i' < j'" by simp
    moreover from Cons.prems(4) Suc j
    have "canonical_key String (ts ! i') = canonical_key String (ts ! j')" by simp
    ultimately show ?thesis using Cons.IH [OF r _ lt] e j by simp
  qed
qed

lemma RunFilter_turn:
  "RunFilter String f ts = (f', evss) \<Longrightarrow> i < length ts \<Longrightarrow>
   \<exists>g g'. filter_task String g (ts ! i) = (g', evss ! i)
         \<and> g = fst (RunFilter String f (take i ts))
         \<and> g' = fst (RunFilter String f (take (Suc i) ts))"
proof (induction ts arbitrary: f f' evss i)
  case Nil
  then show ?case by simp
next
  case (Cons t ts)
  obtain f1 evs where s: "filter_task String f t = (f1, evs)" by (cases "filter_task String f t")
  obtain f2 rest where r: "RunFilter String f1 ts = (f2, rest)" by (cases "RunFilter String f1 ts")
  from Cons.prems(1) s r have e: "evss = evs # rest" by simp
  show ?case
  proof (cases i)
    case 0
    with s e show ?thesis by simp
  next
    case (Suc i')
    with Cons.prems(2) have "i' < length ts" by simp
    from Cons.IH [OF r this] show ?thesis using e Suc s by (auto split: prod.splits)
  qed
qed

lemma decrements_turn:
  "filter_task String g t = (g', evs) \<Longrightarrow> decrements evs = (if emitted evs then 0 else 1)"
proof -
  have n: "(\<forall>e \<in> set checks. is_SubpathCheck e) \<Longrightarrow>
       filter (\<lambda>e. e = QueueDone 1) checks = [] \<and> \<not> list_ex is_Sent checks" for checks
    by (induction checks) (auto elim: is_SubpathCheck.elims)
  assume "filter_task String g t = (g', evs)"
  from filter_task_cases [OF this] show ?thesis
    using n by (auto simp: decrements_def emitted_def reject_def)
qed


text \<open>
  C3. In one run of the filter over the Tasks \<open>ts\<close>, starting from any filter state: of
  two Tasks at positions \<open>i < j\<close> with the same canonical key at most one is sent on the
  output channel, and a Task that is not sent causes exactly one call \<open>counter(1)\<close>, while a
  Task that is sent causes none.
\<close>

theorem RunFilter_dedup:
  assumes "RunFilter String f ts = (f', evss)"
  shows "length evss = length ts
       \<and> (\<forall>i j. i < j \<and> j < length ts
                \<and> canonical_key String (ts ! i) = canonical_key String (ts ! j)
              \<longrightarrow> \<not> (emitted (evss ! i) \<and> emitted (evss ! j)))
       \<and> (\<forall>i < length ts. decrements (evss ! i) = (if emitted (evss ! i) then 0 else 1))"
proof (intro conjI allI impI)
  show "length evss = length ts"
    using assms by (rule RunFilter_length)
next
  fix i j
  assume h: "i < j \<and> j < length ts
             \<and> canonical_key String (ts ! i) = canonical_key String (ts ! j)"
  then have "evss ! j
      = reject ((ts ! j)\<lparr>task_URL := (task_URL (ts ! j))\<lparr>Fragment := []\<rparr>\<rparr>) ''already done''"
    using RunFilter_later_duplicate [OF assms] by blast
  then have "\<not> emitted (evss ! j)"
    by (simp add: emitted_def reject_def)
  then show "\<not> (emitted (evss ! i) \<and> emitted (evss ! j))"
    by simp
next
  fix i
  assume "i < length ts"
  from RunFilter_turn [OF assms this] obtain g g' where
    "filter_task String g (ts ! i) = (g', evss ! i)" by blast
  then show "decrements (evss ! i) = (if emitted (evss ! i) then 0 else 1)"
    by (rule decrements_turn)
qed

theorem RunFilter_dedup_witness:
  "RunFilter (\<lambda>t. Path (task_URL t)) \<lparr>seen = Map.empty, exclusions = []\<rparr>
     [(example_task ''/a'')\<lparr>task_URL := (example_url ''/a'')\<lparr>Fragment := ''top''\<rparr>\<rparr>,
      example_task ''/a'']
   = (\<lparr>seen = [''/a'' \<mapsto> True], exclusions = []\<rparr>,
      [[Sent (example_task ''/a'')],
       [Rejected (example_task ''/a'') ''already done'', QueueDone 1]])
   \<and> \<not> (emitted [Sent (example_task ''/a'')]
        \<and> emitted [Rejected (example_task ''/a'') ''already done'', QueueDone 1])
   \<and> decrements [Sent (example_task ''/a'')] = 0
   \<and> decrements [Rejected (example_task ''/a'') ''already done'', QueueDone 1] = 1"
proof -
  let ?S = "\<lambda>t. Path (task_URL t)"
  let ?ts = "[(example_task ''/a'')\<lparr>task_URL := (example_url ''/a'')\<lparr>Fragment := ''top''\<rparr>\<rparr>,
              example_task ''/a'']"
  let ?E = "[[Sent (example_task ''/a'')],
             [Rejected (example_task ''/a'') ''already done'', QueueDone 1]]"
  have run: "RunFilter ?S \<lparr>seen = Map.empty, exclusions = []\<rparr> ?ts
      = (\<lparr>seen = [''/a'' \<mapsto> True], exclusions = []\<rparr>, ?E)"
    by (simp add: filter_task_def reject_def example_task_def example_url_def Let_def)
  have key: "canonical_key ?S (?ts ! 0) = canonical_key ?S (?ts ! 1)"
    by (simp add: canonical_key_def example_task_def example_url_def)
  note d = RunFilter_dedup [OF run]
  note a = d [THEN conjunct2, THEN conjunct1]
  note b = d [THEN conjunct2, THEN conjunct2]
  from a [rule_format, of 0 1] key
  have n: "\<not> (emitted (?E ! 0) \<and> emitted (?E ! 1))"
    by simp
  from b [rule_format, of 0] b [rule_format, of 1]
  have c: "decrements (?E ! 0) = (if emitted (?E ! 0) then 0 else 1)"
    "decrements (?E ! 1) = (if emitted (?E ! 1) then 0 else 1)"
    by simp_all
  from n c show ?thesis
    using run by (simp add: emitted_def)
qed

text \<open>
  C9. The key of a Task is put into the \<open>done\<close> map before the exclusions are looked at:
  when the Task at position \<open>i\<close> is rejected as excluded, its key was not in the map before
  its turn and is in it afterwards and at the end of the run. Every later Task with the same
  key is rejected as "already done": its turn consists of that rejection and one call
  \<open>counter(1)\<close>, with no call of \<open>URLIsSubpath\<close> and no send.
\<close>

theorem RunFilter_excluded_key_recorded:
  assumes "RunFilter String f ts = (f', evss)"
    and "i < j" and "j < length ts"
    and "canonical_key String (ts ! i) = canonical_key String (ts ! j)"
    and "list_ex (is_Rejected_for ''excluded'') (evss ! i)"
  shows "canonical_key String (ts ! i) \<notin> dom (seen (fst (RunFilter String f (take i ts))))
       \<and> canonical_key String (ts ! i) \<in> dom (seen (fst (RunFilter String f (take (Suc i) ts))))
       \<and> canonical_key String (ts ! i) \<in> dom (seen f')
       \<and> evss ! j = [Rejected ((ts ! j)\<lparr>task_URL := (task_URL (ts ! j))\<lparr>Fragment := []\<rparr>\<rparr>)
                       ''already done'', QueueDone 1]
       \<and> \<not> list_ex is_SubpathCheck (evss ! j)
       \<and> \<not> emitted (evss ! j)"
proof -
  from assms(2,3) have i: "i < length ts" by simp
  from RunFilter_turn [OF assms(1) i] obtain g g' where
    turn: "filter_task String g (ts ! i) = (g', evss ! i)"
    and g: "g = fst (RunFilter String f (take i ts))"
    and g': "g' = fst (RunFilter String f (take (Suc i) ts))" by blast
  have new: "canonical_key String (ts ! i) \<notin> dom (seen g)"
  proof
    assume "canonical_key String (ts ! i) \<in> dom (seen g)"
    from filter_task_duplicate [OF this] turn assms(5) show False
      by (simp add: reject_def)
  qed
  from filter_task_seen [OF turn]
  have after: "canonical_key String (ts ! i) \<in> dom (seen g')" by simp
  from RunFilter_seen [OF assms(1)] i
  have final: "canonical_key String (ts ! i) \<in> dom (seen f')" by simp
  from RunFilter_later_duplicate [OF assms(1-4)]
  have later: "evss ! j
      = [Rejected ((ts ! j)\<lparr>task_URL := (task_URL (ts ! j))\<lparr>Fragment := []\<rparr>\<rparr>)
           ''already done'', QueueDone 1]"
    by (simp add: reject_def)
  from new after final later show ?thesis
    by (simp add: g g' emitted_def)
qed

theorem RunFilter_excluded_key_recorded_witness:
  "RunFilter (\<lambda>t. Path (task_URL t)) \<lparr>seen = Map.empty, exclusions = [example_url ''/'']\<rparr>
     [example_task ''/admin'', example_task ''/admin'']
   = (\<lparr>seen = [''/admin'' \<mapsto> True], exclusions = [example_url ''/'']\<rparr>,
      [[SubpathCheck (example_url ''/'') (example_url ''/admin''),
        Rejected (example_task ''/admin'') ''excluded'', QueueDone 1],
       [Rejected (example_task ''/admin'') ''already done'', QueueDone 1]])
   \<and> \<not> list_ex is_SubpathCheck [Rejected (example_task ''/admin'') ''already done'', QueueDone 1]
   \<and> \<not> emitted [Rejected (example_task ''/admin'') ''already done'', QueueDone 1]"
proof -
  let ?S = "\<lambda>t. Path (task_URL t)"
  let ?f = "\<lparr>seen = Map.empty, exclusions = [example_url ''/'']\<rparr>"
  let ?ts = "[example_task ''/admin'', example_task ''/admin'']"
  let ?E = "[[SubpathCheck (example_url ''/'') (example_url ''/admin''),
              Rejected (example_task ''/admin'') ''excluded'', QueueDone 1],
             [Rejected (example_task ''/admin'') ''already done'', QueueDone 1]]"
  have run: "RunFilter ?S ?f ?ts
      = (\<lparr>seen = [''/admin'' \<mapsto> True], exclusions = [example_url ''/'']\<rparr>, ?E)"
    by (simp add: filter_task_def reject_def example_simps URLIsSubpath_example_root Let_def)
  have excl: "list_ex (is_Rejected_for ''excluded'') (?E ! 0)"
    by simp
  have lt: "(0::nat) < 1" and j: "1 < length ?ts"
    and key: "canonical_key ?S (?ts ! 0) = canonical_key ?S (?ts ! 1)"
    by simp_all
  note r = RunFilter_excluded_key_recorded [OF run lt j key excl]
  note r4 = r [THEN conjunct2, THEN conjunct2, THEN conjunct2, THEN conjunct2]
  from r4 have "\<not> list_ex is_SubpathCheck (?E ! 1) \<and> \<not> emitted (?E ! 1)"
    by simp
  then show ?thesis
    using run by simp
qed

section \<open>Mangled probes\<close>


















text \<open>
  A path that contains a slash splits at its last slash: it has the form \<open>d/b\<close> with no
  slash in \<open>b\<close>.
\<close>

lemma last_slash_split: "c \<in> set s \<Longrightarrow> \<exists>d b. s = d @ c # b \<and> c \<notin> set b"
  by (rule split_list_last)



section \<open>Splitting and joining paths\<close>

lemma Join_Cons: "ys \<noteq> [] \<Longrightarrow> Join (x # ys) sep = x @ sep @ Join ys sep"
  by (cases ys) simp_all

lemma Join_Cons_char: "Join ((c # x) # ys) sep = c # Join (x # ys) sep"
  by (cases ys) simp_all

lemma Join_Split: "Join (Split s c) [c] = s"
proof (induction s)
  case Nil
  then show ?case by simp
next
  case (Cons x xs)
  obtain h t where ht: "Split xs c = h # t"
    using Split_not_Nil [of xs c] by (cases "Split xs c") auto
  with Cons show ?case
    by (simp add: Join_Cons Join_Cons_char)
qed

lemma Split_pieces: "e \<in> set (Split s c) \<Longrightarrow> c \<notin> set e"
proof (induction s arbitrary: e)
  case Nil
  then show ?case by simp
next
  case (Cons x xs)
  obtain h t where ht: "Split xs c = h # t"
    using Split_not_Nil [of xs c] by (cases "Split xs c") auto
  with Cons.prems Cons.IH [of h] Cons.IH [of e] show ?case
    by (auto split: if_splits)
qed

lemma Join_append:
  "A \<noteq> [] \<Longrightarrow> B \<noteq> [] \<Longrightarrow> Join (A @ B) sep = Join A sep @ sep @ Join B sep"
proof (induction A)
  case Nil
  then show ?case by simp
next
  case (Cons a A)
  show ?case
  proof (cases A)
    case Nil
    with Cons.prems show ?thesis by (simp add: Join_Cons)
  next
    case (Cons a' A')
    with Cons.IH Cons.prems show ?thesis by simp
  qed
qed

lemma Join_take_drop:
  assumes "0 < i" and "i < length xs"
  shows "Join xs sep = Join (take i xs) sep @ sep @ Join (drop i xs) sep"
proof -
  from assms have "take i xs \<noteq> []" and "drop i xs \<noteq> []" by auto
  from Join_append [OF this, of sep] show ?thesis by simp
qed

lemma TrimRight_decomp: "\<exists>k. s = TrimRight s [c] @ replicate k c"
proof -
  let ?P = "\<lambda>x. x \<in> set [c]"
  have "rev s = takeWhile ?P (rev s) @ dropWhile ?P (rev s)" by simp
  then have "s = rev (dropWhile ?P (rev s)) @ rev (takeWhile ?P (rev s))"
    by (metis rev_append rev_rev_ident)
  moreover have "rev (takeWhile ?P (rev s)) = replicate (length (takeWhile ?P (rev s))) c"
  proof -
    have "\<forall>x \<in> set (rev (takeWhile ?P (rev s))). x = c"
      using set_takeWhileD [of _ ?P "rev s"] by auto
    then show ?thesis
      by (metis length_rev replicate_length_same)
  qed
  ultimately show ?thesis
    unfolding TrimRight_def by metis
qed

lemma TrimRight_slashes:
  "x = [] \<or> last x \<noteq> c \<Longrightarrow> TrimRight (x @ replicate k c) [c] = x"
proof -
  assume a: "x = [] \<or> last x \<noteq> c"
  have "dropWhile (\<lambda>y. y \<in> set [c]) (replicate k c @ rev x)
      = dropWhile (\<lambda>y. y \<in> set [c]) (rev x)"
    by (induction k) simp_all
  moreover from a have "dropWhile (\<lambda>y. y \<in> set [c]) (rev x) = rev x"
    by (cases x rule: rev_cases) auto
  ultimately show ?thesis
    by (simp add: TrimRight_def)
qed

lemma concat_slash_Join:
  "ys \<noteq> [] \<Longrightarrow> concat (map ((#) c) ys) = c # Join ys [c]"
proof (induction ys)
  case Nil
  then show ?case by simp
next
  case (Cons y ys)
  then show ?case by (cases ys) simp_all
qed

lemma Split_segments:
  "\<forall>e \<in> set (s # segs). c \<notin> set e \<Longrightarrow>
   Split (s @ concat (map ((#) c) segs)) c = s # segs"
proof (induction segs arbitrary: s)
  case Nil
  then show ?case by (simp add: Split_no_sep)
next
  case (Cons a segs)
  from Cons.prems have "c \<notin> set s" by simp
  from Split_append_sep [OF this, of "a @ concat (map ((#) c) segs)"] Cons.IH [of a] Cons.prems
  show ?case by simp
qed


lemma last_concat_segments:
  assumes "segs \<noteq> []" and "\<forall>s \<in> set segs. s \<noteq> [] \<and> c \<notin> set s"
  shows "last (concat (map ((#) c) segs)) \<noteq> c"
proof -
  from assms(1) obtain segs' z where z: "segs = segs' @ [z]"
    by (cases segs rule: rev_cases) auto
  with assms(2) have "z \<noteq> []" and "c \<notin> set z" by auto
  then have "last z \<noteq> c" by (metis last_in_set)
  with z \<open>z \<noteq> []\<close> show ?thesis by simp
qed

lemma parents_of_rooted:
  assumes segs: "\<forall>s \<in> set segs. s \<noteq> [] \<and> CHR ''/'' \<notin> set s"
  shows "getParentPathsString (concat (map ((#) CHR ''/'') segs) @ replicate k CHR ''/'')
       = map (\<lambda>j. concat (map ((#) CHR ''/'') (take j segs))) [1 ..< length segs]"
proof (cases segs)
  case Nil
  have "TrimRight (replicate k CHR ''/'') ''/'' = []"
    using TrimRight_slashes [of "[]" "CHR ''/''" k] by simp
  with Nil show ?thesis
    by (simp add: getParentPathsString_def)
next
  case (Cons a rest)
  let ?x = "concat (map ((#) CHR ''/'') segs)"
  from Cons have ne: "segs \<noteq> []" by simp
  from last_concat_segments [OF ne segs] have "last ?x \<noteq> CHR ''/''" .
  then have trim: "TrimRight (?x @ replicate k CHR ''/'') ''/'' = ?x"
    using TrimRight_slashes [of ?x "CHR ''/''" k] by simp
  from segs have "\<forall>e \<in> set ([] # segs). CHR ''/'' \<notin> set e" by simp
  from Split_segments [OF this] have split: "Split ?x CHR ''/'' = [] # segs" by simp
  have "map (\<lambda>i. Join (take i ([] # segs)) ''/'') [2 ..< Suc (length segs)]
      = map (\<lambda>i. Join (take i ([] # segs)) ''/'') (map Suc [1 ..< length segs])"
    by (simp add: map_Suc_upt numeral_2_eq_2)
  also have "\<dots> = map (\<lambda>j. Join ([] # take j segs) ''/'') [1 ..< length segs]"
    by simp
  also have "\<dots> = map (\<lambda>j. concat (map ((#) CHR ''/'') (take j segs))) [1 ..< length segs]"
  proof (rule map_cong [OF refl])
    fix j
    assume "j \<in> set [1 ..< length segs]"
    with ne have "take j segs \<noteq> []" by auto
    then show "Join ([] # take j segs) ''/'' = concat (map ((#) CHR ''/'') (take j segs))"
      by (simp add: Join_Cons concat_slash_Join)
  qed
  finally show ?thesis
    by (simp add: getParentPathsString_def trim split slash_def)
qed

lemma TrimRight_rooted:
  assumes "\<forall>s \<in> set segs. s \<noteq> [] \<and> CHR ''/'' \<notin> set s"
  shows "TrimRight (concat (map ((#) CHR ''/'') segs) @ replicate k CHR ''/'') ''/''
       = concat (map ((#) CHR ''/'') segs)"
proof (cases segs)
  case Nil
  then show ?thesis
    using TrimRight_slashes [of "[]" "CHR ''/''" k] by simp
next
  case (Cons a rest)
  then have ne: "segs \<noteq> []" by simp
  from last_concat_segments [OF ne assms]
  have "last (concat (map ((#) CHR ''/'') segs)) \<noteq> CHR ''/''" .
  then show ?thesis
    using TrimRight_slashes [of "concat (map ((#) CHR ''/'') segs)" "CHR ''/''" k] by simp
qed

lemma ancestor_dirs_Nil: "ancestor_dirs [] = []"
  by (simp add: ancestor_dirs_def)

lemma ancestor_dirs_snoc:
  assumes s: "CHR ''/'' \<notin> set s"
  shows "ancestor_dirs (T @ CHR ''/'' # s)
       = ancestor_dirs T @ (if T = [] \<or> T = ''/'' then [] else [T])"
proof (cases "T = []")
  case True
  have "filter (\<lambda>n. (CHR ''/'' # s) ! n = CHR ''/'') [1 ..< length (CHR ''/'' # s)] = []"
  proof -
    have not_slash: "(CHR ''/'' # s) ! n \<noteq> CHR ''/''" if "1 \<le> n" and "n < Suc (length s)" for n
    proof -
      from that obtain m where m: "n = Suc m" "m < length s" by (cases n) auto
      then have "s ! m \<in> set s" by simp
      with s have "s ! m \<noteq> CHR ''/''" by metis
      with m show ?thesis by simp
    qed
    have "\<forall>n \<in> set [1 ..< length (CHR ''/'' # s)]. \<not> (CHR ''/'' # s) ! n = CHR ''/''"
    proof
      fix n
      assume "n \<in> set [1 ..< length (CHR ''/'' # s)]"
      then have "1 \<le> n" and "n < Suc (length s)" by auto
      then show "\<not> (CHR ''/'' # s) ! n = CHR ''/''" by (rule not_slash)
    qed
    then show ?thesis by (simp only: filter_empty_conv)
  qed
  with True show ?thesis
    by (simp add: ancestor_dirs_def)
next
  case False
  let ?a = "length T" and ?P = "\<lambda>n. (T @ CHR ''/'' # s) ! n = CHR ''/''"
  from False have a: "1 \<le> ?a" by (cases T) auto
  have range: "[1 ..< length (T @ CHR ''/'' # s)]
      = [1 ..< ?a] @ ?a # [Suc ?a ..< ?a + Suc (length s)]"
  proof -
    have "length (T @ CHR ''/'' # s) = ?a + Suc (length s)" by simp
    then have "[1 ..< length (T @ CHR ''/'' # s)] = [1 ..< ?a + Suc (length s)]"
      by (rule arg_cong)
    also have "\<dots> = [1 ..< ?a] @ [?a ..< ?a + Suc (length s)]"
      using a by (metis le_Suc_ex upt_add_eq_append)
    also have "[?a ..< ?a + Suc (length s)] = ?a # [Suc ?a ..< ?a + Suc (length s)]"
      by (rule upt_conv_Cons) simp
    finally show ?thesis .
  qed
  have low: "filter ?P [1 ..< ?a] = filter (\<lambda>n. T ! n = CHR ''/'') [1 ..< ?a]"
    by (rule filter_cong [OF refl]) (simp add: nth_append)
  have mid: "?P ?a" by simp
  have high: "filter ?P [Suc ?a ..< ?a + Suc (length s)] = []"
  proof -
    have "\<forall>n \<in> set [Suc ?a ..< ?a + Suc (length s)]. \<not> ?P n"
    proof
      fix n
      assume "n \<in> set [Suc ?a ..< ?a + Suc (length s)]"
      then have n: "?a < n" "n - Suc ?a < length s" by auto
      then have "(T @ CHR ''/'' # s) ! n = s ! (n - Suc ?a)"
        by (simp add: nth_append nth_Cons')
      moreover from n have "s ! (n - Suc ?a) \<in> set s" by simp
      with s have "s ! (n - Suc ?a) \<noteq> CHR ''/''" by metis
      ultimately show "\<not> ?P n" by simp
    qed
    then show ?thesis by (simp only: filter_empty_conv)
  qed
  have sel: "filter ?P [1 ..< length (T @ CHR ''/'' # s)]
      = filter (\<lambda>n. T ! n = CHR ''/'') [1 ..< ?a] @ [?a]"
    unfolding range filter_append filter.simps using low mid high by simp
  have takes: "map (\<lambda>n. take n (T @ CHR ''/'' # s)) (filter (\<lambda>n. T ! n = CHR ''/'') [1 ..< ?a])
      = map (\<lambda>n. take n T) (filter (\<lambda>n. T ! n = CHR ''/'') [1 ..< ?a])"
    by (rule map_cong [OF refl]) simp
  show ?thesis
    unfolding ancestor_dirs_def sel map_append filter_append takes using False
    by simp
qed

lemma ancestor_dirs_rooted:
  assumes "\<forall>s \<in> set segs. s \<noteq> [] \<and> CHR ''/'' \<notin> set s"
  shows "ancestor_dirs (concat (map ((#) CHR ''/'') segs))
       = map (\<lambda>j. concat (map ((#) CHR ''/'') (take j segs))) [1 ..< length segs]"
  using assms
proof (induction segs rule: rev_induct)
  case Nil
  then show ?case by (simp add: ancestor_dirs_Nil)
next
  case (snoc s ss)
  let ?T = "concat (map ((#) CHR ''/'') ss)"
  from snoc.prems have s: "CHR ''/'' \<notin> set s" and sne: "s \<noteq> []"
    and ss: "\<forall>s \<in> set ss. s \<noteq> [] \<and> CHR ''/'' \<notin> set s"
    by simp_all
  have T: "concat (map ((#) CHR ''/'') (ss @ [s])) = ?T @ CHR ''/'' # s" by simp
  have root: "?T \<noteq> ''/''"
  proof (cases ss)
    case Nil
    then show ?thesis by simp
  next
    case (Cons a rest)
    with ss have "a \<noteq> []" by simp
    with Cons show ?thesis by (cases a) auto
  qed
  have empty: "?T = [] \<longleftrightarrow> ss = []"
    by (cases ss) auto
  show ?case
  proof (cases "ss = []")
    case True
    then show ?thesis
      using ancestor_dirs_snoc [OF s, of "[]"] by (simp add: ancestor_dirs_Nil)
  next
    case False
    then have n: "1 \<le> length ss" by (cases ss) auto
    have "[1 ..< length (ss @ [s])] = [1 ..< length ss] @ [length ss]"
      using n by simp
    then have "map (\<lambda>j. concat (map ((#) CHR ''/'') (take j (ss @ [s])))) [1 ..< length (ss @ [s])]
        = map (\<lambda>j. concat (map ((#) CHR ''/'') (take j ss))) [1 ..< length ss] @ [?T]"
      by simp
    moreover have "ancestor_dirs (?T @ CHR ''/'' # s) = ancestor_dirs ?T @ [?T]"
      using ancestor_dirs_snoc [OF s, of ?T] False root empty by simp
    ultimately show ?thesis
      using snoc.IH [OF ss] T by simp
  qed
qed


text \<open>
  C7. The paths of the URLs that \<open>GetParentPaths u\<close> returns are the joins of the first
  \<open>i\<close> pieces, for \<open>i\<close> from 2 up to but excluding the number of pieces, of the path
  of \<open>u\<close> split at its slashes after its trailing slashes are removed. For the path
  \<open>/a/b/c\<close> they are \<open>/a\<close> and \<open>/a/b\<close>. When the path of \<open>u\<close> is a slash before each of the
  non-empty names \<open>segs\<close>, followed by any number of trailing slashes, they are the paths
  made of the first \<open>j\<close> names, for every \<open>j\<close> from 1 up to but excluding the number of
  names, and these are exactly the proper ancestor directories of the path, without the
  root and without the path itself.
\<close>

theorem GetParentPaths_paths:
  "map Path (GetParentPaths u)
     = map (\<lambda>i. Join (take i (Split (TrimRight (Path u) ''/'') CHR ''/'')) ''/'')
         [2 ..< length (Split (TrimRight (Path u) ''/'') CHR ''/'')]
   \<and> map Path (GetParentPaths (u\<lparr>Path := ''/a/b/c''\<rparr>)) = [''/a'', ''/a/b'']
   \<and> ((\<forall>s \<in> set segs. s \<noteq> [] \<and> CHR ''/'' \<notin> set s)
        \<and> Path u = concat (map (\<lambda>s. ''/'' @ s) segs) @ replicate k CHR ''/''
      \<longrightarrow> map Path (GetParentPaths u)
            = map (\<lambda>j. concat (map (\<lambda>s. ''/'' @ s) (take j segs))) [1 ..< length segs]
          \<and> map Path (GetParentPaths u) = ancestor_dirs (TrimRight (Path u) ''/''))"
proof -
  have one: "map Path (GetParentPaths u)
     = map (\<lambda>i. Join (take i (Split (TrimRight (Path u) ''/'') CHR ''/'')) ''/'')
         [2 ..< length (Split (TrimRight (Path u) ''/'') CHR ''/'')]"
    by (simp add: map_Path_GetParentPaths getParentPathsString_def TrimRight_idem slash_def
        Let_def)
  have two: "map Path (GetParentPaths (u\<lparr>Path := ''/a/b/c''\<rparr>)) = [''/a'', ''/a/b'']"
    by (simp add: GetParentPaths_def getParentPathsString_def TrimRight_def slash_def
        upt_conv_Cons o_def)
  have three: "map Path (GetParentPaths u)
            = map (\<lambda>j. concat (map (\<lambda>s. ''/'' @ s) (take j segs))) [1 ..< length segs]
          \<and> map Path (GetParentPaths u) = ancestor_dirs (TrimRight (Path u) ''/'')"
    if h: "(\<forall>s \<in> set segs. s \<noteq> [] \<and> CHR ''/'' \<notin> set s)
        \<and> Path u = concat (map (\<lambda>s. ''/'' @ s) segs) @ replicate k CHR ''/''"
  proof -
    from h have segs: "\<forall>s \<in> set segs. s \<noteq> [] \<and> CHR ''/'' \<notin> set s"
      and path: "Path u = concat (map ((#) CHR ''/'') segs) @ replicate k CHR ''/''"
      by simp_all
    have "map Path (GetParentPaths u) = getParentPathsString (Path u)"
      by (simp add: map_Path_GetParentPaths getParentPathsString_def TrimRight_idem)
    with parents_of_rooted [OF segs, of k] path
    have list: "map Path (GetParentPaths u)
        = map (\<lambda>j. concat (map ((#) CHR ''/'') (take j segs))) [1 ..< length segs]"
      by simp
    have "TrimRight (Path u) ''/'' = concat (map ((#) CHR ''/'') segs)"
      unfolding path using segs by (rule TrimRight_rooted)
    with ancestor_dirs_rooted [OF segs] list
    have "map Path (GetParentPaths u) = ancestor_dirs (TrimRight (Path u) ''/'')"
      by simp
    with list show ?thesis by simp
  qed
  show ?thesis
    by (rule conjI [OF one conjI [OF two impI [OF three]]])
qed

text \<open>
  C7 as stated, for every URL, does not hold in its second half: the returned paths are not
  always the proper ancestor directories without the root. For the path \<open>//a/b\<close> the first
  join is \<open>/\<close>, the root.
\<close>

theorem GetParentPaths_root_counterexample:
  "map Path (GetParentPaths (example_url ''//a/b'')) = [''/'', ''//a'']
   \<and> ancestor_dirs (TrimRight (Path (example_url ''//a/b'')) ''/'') = [''//a'']
   \<and> map Path (GetParentPaths (example_url ''//a/b''))
       \<noteq> ancestor_dirs (TrimRight (Path (example_url ''//a/b'')) ''/'')"
  by (simp add: GetParentPaths_def getParentPathsString_def TrimRight_def slash_def
      upt_conv_Cons o_def example_url_def ancestor_dirs_def)

text \<open>
  A path that does not begin with a slash is left out for a like reason: the loop starts
  with the join of two pieces, so the first name alone is never returned.
\<close>

lemma GetParentPaths_relative_path:
  "map Path (GetParentPaths (example_url ''a/b/c'')) = [''a/b'']
   \<and> ancestor_dirs (TrimRight (Path (example_url ''a/b/c'')) ''/'') = [''a'', ''a/b'']"
  by (simp add: GetParentPaths_def getParentPathsString_def TrimRight_def slash_def
      upt_conv_Cons o_def example_url_def ancestor_dirs_def)

theorem GetParentPaths_paths_witness:
  "map Path (GetParentPaths (example_url ''/x/y/z/'')) = [''/x'', ''/x/y'']
   \<and> ancestor_dirs (TrimRight (Path (example_url ''/x/y/z/'')) ''/'') = [''/x'', ''/x/y'']"
proof -
  have h: "(\<forall>s \<in> set [''x'', ''y'', ''z'']. s \<noteq> [] \<and> CHR ''/'' \<notin> set s)
      \<and> Path (example_url ''/x/y/z/'')
          = concat (map (\<lambda>s. ''/'' @ s) [''x'', ''y'', ''z'']) @ replicate 1 CHR ''/''"
    by (simp add: example_simps)
  note T = GetParentPaths_paths [of "example_url ''/x/y/z/''" "[''x'', ''y'', ''z'']" 1,
      THEN conjunct2, THEN conjunct2, rule_format, OF h]
  from T [THEN conjunct1]
  have a: "map Path (GetParentPaths (example_url ''/x/y/z/'')) = [''/x'', ''/x/y'']"
    by (simp add: upt_conv_Cons)
  from T [THEN conjunct2] a
  have "ancestor_dirs (TrimRight (Path (example_url ''/x/y/z/'')) ''/'') = [''/x'', ''/x/y'']"
    by simp
  with a show ?thesis by simp
qed

section \<open>Parents and subpaths\<close>

lemma Clean_examples:
  "Clean ''/a'' = ''/a''" "Clean ''/a/../b'' = ''/b''"
  "Clean ''/.'' = ''/''" "Clean ''/./b/c'' = ''/b/c''"
  "Clean ''//'' = ''/''" "Clean ''///a/b'' = ''/a/b''"
  by (simp_all add: Clean_def)

lemma clean_loop_slashes: "clean_loop rooted (replicate k CHR ''/'') out dotdot = out"
  by (induction k) simp_all

lemma takeWhile_upto:
  assumes "c \<notin> set cs" and "rest = [] \<or> hd rest = c"
  shows "takeWhile (\<lambda>x. x \<noteq> c) (cs @ rest) = cs"
proof (cases rest)
  case Nil
  with assms(1) show ?thesis by (auto simp: takeWhile_eq_all_conv)
next
  case (Cons x r)
  with assms(2) have "rest = c # r" by simp
  with assms(1) show ?thesis by (induction cs) auto
qed

lemma dropWhile_upto:
  assumes "c \<notin> set cs" and "rest = [] \<or> hd rest = c"
  shows "dropWhile (\<lambda>x. x \<noteq> c) (cs @ rest) = rest"
proof (cases rest)
  case Nil
  with assms(1) show ?thesis by auto
next
  case (Cons x r)
  with assms(2) have "rest = c # r" by simp
  with assms(1) show ?thesis by (induction cs) auto
qed

lemma clean_loop_segment:
  assumes plain: "plain_segment s" and ns: "CHR ''/'' \<notin> set s"
    and rest: "rest = [] \<or> hd rest = CHR ''/''"
  shows "clean_loop rooted (s @ rest) out dotdot
       = clean_loop rooted rest
           ((if rooted \<and> length out \<noteq> 1 \<or> \<not> rooted \<and> length out \<noteq> 0
             then out @ ''/'' else out) @ s) dotdot"
proof -
  from plain obtain c cs where s: "s = c # cs"
    by (cases s) (auto simp: plain_segment_def)
  from ns s have c: "c \<noteq> CHR ''/''" and cs: "CHR ''/'' \<notin> set cs" by auto
  have tw: "takeWhile (\<lambda>x. x \<noteq> CHR ''/'') (cs @ rest) = cs"
    using cs rest by (rule takeWhile_upto)
  have dw: "dropWhile (\<lambda>x. x \<noteq> CHR ''/'') (cs @ rest) = rest"
    using cs rest by (rule dropWhile_upto)
  have not_dot: "\<not> (c = CHR ''.'' \<and> (cs @ rest = [] \<or> hd (cs @ rest) = CHR ''/''))"
  proof
    assume a: "c = CHR ''.'' \<and> (cs @ rest = [] \<or> hd (cs @ rest) = CHR ''/'')"
    have "cs = []"
    proof (cases cs)
      case Nil
      then show ?thesis .
    next
      case (Cons d ds)
      with a cs show ?thesis by auto
    qed
    with a s plain show False by (simp add: plain_segment_def)
  qed
  have not_dotdot: "\<not> (c = CHR ''.'' \<and> hd (cs @ rest) = CHR ''.''
      \<and> (tl (cs @ rest) = [] \<or> hd (tl (cs @ rest)) = CHR ''/''))"
  proof
    assume a: "c = CHR ''.'' \<and> hd (cs @ rest) = CHR ''.''
      \<and> (tl (cs @ rest) = [] \<or> hd (tl (cs @ rest)) = CHR ''/'')"
    show False
    proof (cases cs)
      case Nil
      with a s plain show ?thesis by (simp add: plain_segment_def)
    next
      case (Cons d ds)
      with a have d: "d = CHR ''.''" by simp
      have "ds = []"
      proof (cases ds)
        case Nil
        then show ?thesis .
      next
        case (Cons e es)
        with a \<open>cs = d # ds\<close> cs show ?thesis by auto
      qed
      with a d Cons s plain show ?thesis by (simp add: plain_segment_def)
    qed
  qed
  show ?thesis
    unfolding s append_Cons
    by (subst clean_loop.simps(2)) (simp only: c not_dot not_dotdot if_False Let_def tw dw)
qed


lemma segments_rest:
  "concat (map ((#) CHR ''/'') segs) @ replicate k CHR ''/'' = []
   \<or> hd (concat (map ((#) CHR ''/'') segs) @ replicate k CHR ''/'') = CHR ''/''"
  by (cases segs; cases k) simp_all

lemma Join_segments: "Join (s # segs) [c] = s @ concat (map ((#) c) segs)"
  by (induction segs arbitrary: s) (simp_all add: Join_Cons)

lemma clean_loop_dot:
  "rest = [] \<or> hd rest = CHR ''/'' \<Longrightarrow>
   clean_loop rooted (CHR ''.'' # rest) out dotdot = clean_loop rooted rest out dotdot"
  by simp

lemma clean_loop_pieces:
  assumes "\<forall>s \<in> set segs. s \<noteq> ''..'' \<and> CHR ''/'' \<notin> set s"
  shows "clean_loop rooted (concat (map ((#) CHR ''/'') segs) @ replicate k CHR ''/'') out dotdot
       = (if rooted \<and> length out \<noteq> 1 \<or> \<not> rooted \<and> length out \<noteq> 0
          then out @ concat (map ((#) CHR ''/'') (filter plain_segment segs))
          else out @ Join (filter plain_segment segs) ''/'')"
  using assms
proof (induction segs arbitrary: out)
  case Nil
  then show ?case by (simp add: clean_loop_slashes)
next
  case (Cons s segs)
  let ?rest = "concat (map ((#) CHR ''/'') segs) @ replicate k CHR ''/''"
  let ?f = "filter plain_segment segs"
  from Cons.prems have nd: "s \<noteq> ''..''" and ns: "CHR ''/'' \<notin> set s"
    and others: "\<forall>s \<in> set segs. s \<noteq> ''..'' \<and> CHR ''/'' \<notin> set s"
    by simp_all
  have start: "clean_loop rooted (concat (map ((#) CHR ''/'') (s # segs)) @ replicate k CHR ''/'')
                 out dotdot
             = clean_loop rooted (s @ ?rest) out dotdot"
    by simp
  consider "s = []" | "s = ''.''" | "plain_segment s"
    using nd by (auto simp: plain_segment_def)
  then show ?case
  proof cases
    case 1
    with start Cons.IH [OF others, of out] show ?thesis
      by (simp add: plain_segment_def)
  next
    case 2
    have "clean_loop rooted (s @ ?rest) out dotdot = clean_loop rooted ?rest out dotdot"
      using clean_loop_dot [OF segments_rest, of rooted segs k out dotdot] 2 by simp
    with start Cons.IH [OF others, of out] 2 show ?thesis
      by (simp add: plain_segment_def)
  next
    case 3
    let ?out = "(if rooted \<and> length out \<noteq> 1 \<or> \<not> rooted \<and> length out \<noteq> 0
                 then out @ ''/'' else out) @ s"
    from 3 have sne: "s \<noteq> []" by (simp add: plain_segment_def)
    then have content: "rooted \<and> length ?out \<noteq> 1 \<or> \<not> rooted \<and> length ?out \<noteq> 0"
      by (cases s) auto
    have "clean_loop rooted (s @ ?rest) out dotdot = clean_loop rooted ?rest ?out dotdot"
      using 3 ns segments_rest by (rule clean_loop_segment)
    also have "\<dots> = ?out @ concat (map ((#) CHR ''/'') ?f)"
      using Cons.IH [OF others, of ?out] content by presburger
    finally have "clean_loop rooted (s @ ?rest) out dotdot
        = ?out @ concat (map ((#) CHR ''/'') ?f)" .
    with start 3 show ?thesis
      by (simp add: Join_segments)
  qed
qed

lemma Clean_rooted:
  assumes "\<forall>s \<in> set segs. s \<noteq> ''..'' \<and> CHR ''/'' \<notin> set s"
    and "filter plain_segment segs \<noteq> []"
  shows "Clean (concat (map ((#) CHR ''/'') segs) @ replicate k CHR ''/'')
       = concat (map ((#) CHR ''/'') (filter plain_segment segs))"
proof -
  let ?path = "concat (map ((#) CHR ''/'') segs) @ replicate k CHR ''/''"
  from assms(2) obtain s segs' where segs: "segs = s # segs'" by (cases segs) auto
  then have path: "?path = CHR ''/'' # tl ?path" by simp
  have "clean_loop True (tl ?path) ''/'' 1 = clean_loop True (CHR ''/'' # tl ?path) ''/'' 1"
    by simp
  also have "\<dots> = clean_loop True ?path ''/'' 1"
    using path by simp
  also have "\<dots> = ''/'' @ Join (filter plain_segment segs) ''/''"
    using clean_loop_pieces [OF assms(1), of True k "''/''" 1] by simp
  also have "\<dots> = concat (map ((#) CHR ''/'') (filter plain_segment segs))"
    using concat_slash_Join [OF assms(2), of "CHR ''/''"] by simp
  finally have "clean_loop True (tl ?path) ''/'' 1
      = concat (map ((#) CHR ''/'') (filter plain_segment segs))" .
  moreover from assms(2) have "concat (map ((#) CHR ''/'') (filter plain_segment segs)) \<noteq> []"
    by (cases "filter plain_segment segs") auto
  moreover from path have "?path \<noteq> []" "hd ?path = CHR ''/''" by (metis list.distinct(1), metis list.sel(1))
  ultimately show ?thesis
    by (simp add: Clean_def Let_def)
qed

lemma Clean_unrooted:
  assumes "plain_segment s" and "CHR ''/'' \<notin> set s"
    and "\<forall>s \<in> set segs. s \<noteq> ''..'' \<and> CHR ''/'' \<notin> set s"
  shows "Clean (s @ concat (map ((#) CHR ''/'') segs) @ replicate k CHR ''/'')
       = s @ concat (map ((#) CHR ''/'') (filter plain_segment segs))"
proof -
  let ?rest = "concat (map ((#) CHR ''/'') segs) @ replicate k CHR ''/''"
  from assms(1) obtain c cs where s: "s = c # cs"
    by (cases s) (auto simp: plain_segment_def)
  with assms(2) have c: "c \<noteq> CHR ''/''" by auto
  have "clean_loop False (s @ ?rest) [] 0 = clean_loop False ?rest s 0"
    using clean_loop_segment [OF assms(1,2) segments_rest, of False segs k "[]" 0] by simp
  also have "\<dots> = s @ concat (map ((#) CHR ''/'') (filter plain_segment segs))"
    using clean_loop_pieces [OF assms(3), of False k s 0] s by simp
  finally have "clean_loop False (s @ ?rest) [] 0
      = s @ concat (map ((#) CHR ''/'') (filter plain_segment segs))" .
  with s c show ?thesis
    by (simp add: Clean_def)
qed

lemma URLIsSubpath_prefix:
  assumes "Scheme p = Scheme u" and "Host p = Host u"
    and "Clean (Path p) = X" and "Clean (Path u) = X @ Y"
    and "Y = [] \<or> hd Y = CHR ''/''"
  shows "URLIsSubpath p u"
proof (cases Y)
  case Nil
  with assms(1-4) show ?thesis
    by (simp add: URLIsSubpath_def)
next
  case (Cons y Y')
  with assms(5) have "Y = CHR ''/'' # Y'" by simp
  with assms(1-4) show ?thesis
    by (simp add: URLIsSubpath_def HasPrefix_def slash_def)
qed


lemma pieces_rest: "concat (map ((#) c) B) = [] \<or> hd (concat (map ((#) c) B)) = c"
  by (cases B) simp_all

lemma GetParentPaths_elem:
  assumes "p \<in> set (GetParentPaths u)"
  obtains i where "2 \<le> i" and "i < length (Split (TrimRight (Path u) ''/'') CHR ''/'')"
    and "p = u\<lparr>Path := Join (take i (Split (TrimRight (Path u) ''/'') CHR ''/'')) ''/''\<rparr>"
  using assms
  by (auto simp: GetParentPaths_def getParentPathsString_def TrimRight_idem slash_def Let_def)

text \<open>
  C8. Every URL \<open>p\<close> that \<open>GetParentPaths u\<close> returns has a path other than that of
  \<open>u\<close>. It is a subpath parent of \<open>u\<close> (\<open>URLIsSubpath p u\<close>) when the path of \<open>u\<close> is plain:
  with its trailing slashes removed, none of its pieces is \<open>..\<close> and its first piece (the
  one after the leading slash, if it begins with one) is a name, neither empty nor \<open>.\<close>.
\<close>

theorem GetParentPaths_strict_ancestors:
  assumes "p \<in> set (GetParentPaths u)"
  shows "Path p \<noteq> Path u \<and> (plain_path (Path u) \<longrightarrow> URLIsSubpath p u)"
proof -
  let ?T = "TrimRight (Path u) ''/''"
  let ?sp = "Split ?T CHR ''/''"
  from assms obtain i where i: "2 \<le> i" "i < length ?sp"
    and p: "p = u\<lparr>Path := Join (take i ?sp) ''/''\<rparr>"
    by (rule GetParentPaths_elem)
  from TrimRight_decomp [of "Path u" "CHR ''/''"] obtain k where
    k: "Path u = ?T @ replicate k CHR ''/''" by auto
  have T: "?T = Join ?sp ''/''"
    using Join_Split [of ?T "CHR ''/''"] by simp
  from i have i0: "0 < i" by simp
  have split: "Join ?sp ''/'' = Join (take i ?sp) ''/'' @ ''/'' @ Join (drop i ?sp) ''/''"
    using i0 i(2) by (rule Join_take_drop)
  have "length (Join ?sp ''/'')
      = length (Join (take i ?sp) ''/'') + 1 + length (Join (drop i ?sp) ''/'')"
    by (subst split) simp
  moreover have "length (Path p) = length (Join (take i ?sp) ''/'')"
    using p by simp
  moreover have "length ?T = length (Join ?sp ''/'')"
    using T by simp
  ultimately have "length (Path p) < length ?T"
    by linarith
  also have "\<dots> \<le> length (Path u)"
    using k by (metis le_add1 length_append)
  finally have differ: "Path p \<noteq> Path u" by auto
  have sub: "URLIsSubpath p u" if plain: "plain_path (Path u)"
  proof -
    from plain obtain first rest where sp: "?sp = first # rest"
      and nodd: "list_all (\<lambda>s. s \<noteq> ''..'') rest"
      and cond: "if first = [] then (case rest of [] \<Rightarrow> True | r # rs \<Rightarrow> plain_segment r)
                 else plain_segment first"
      by (auto simp: plain_path_def split: list.splits)
    have pieces: "\<forall>e \<in> set ?sp. CHR ''/'' \<notin> set e"
      using Split_pieces by blast
    note T' = T [unfolded sp]
    from i sp obtain m where m: "i = Suc m" "1 \<le> m" "m < length rest"
      by (cases i) auto
    then obtain r rs where rest: "rest = r # rs" by (cases rest) auto
    from nodd pieces sp
    have all: "\<forall>s \<in> set rest. s \<noteq> ''..'' \<and> CHR ''/'' \<notin> set s"
      by (auto simp: list_all_iff)
    then have allA: "\<forall>s \<in> set (take m rest). s \<noteq> ''..'' \<and> CHR ''/'' \<notin> set s"
      by (meson in_set_takeD)
    let ?A = "filter plain_segment (take m rest)"
    let ?B = "filter plain_segment (drop m rest)"
    have fil: "filter plain_segment rest = ?A @ ?B"
      by (metis append_take_drop_id filter_append)
    from p have same: "Scheme p = Scheme u" "Host p = Host u" by simp_all
    show ?thesis
    proof (cases "first = []")
      case True
      with cond rest have "plain_segment r" by simp
      moreover from m rest have "r \<in> set (take m rest)" by (cases m) auto
      ultimately have Ane: "?A \<noteq> []"
        by (metis (mono_tags, lifting) empty_filter_conv)
      with fil have Fne: "filter plain_segment rest \<noteq> []" by simp
      from m rest have tne: "take m rest \<noteq> []" by auto
      have pp: "Path p = concat (map ((#) CHR ''/'') (take m rest)) @ replicate 0 CHR ''/''"
        using p sp True m tne by (simp add: Join_Cons concat_slash_Join)
      from rest have rne: "rest \<noteq> []" by simp
      have "Join ([] # rest) ''/'' = concat (map ((#) CHR ''/'') rest)"
        using Join_Cons [OF rne, of "[]" "''/''"] concat_slash_Join [OF rne, of "CHR ''/''"]
        by simp
      with T' True have "?T = concat (map ((#) CHR ''/'') rest)" by simp
      with k have pu: "Path u = concat (map ((#) CHR ''/'') rest) @ replicate k CHR ''/''"
        by simp
      have cp: "Clean (Path p) = concat (map ((#) CHR ''/'') ?A)"
        unfolding pp using allA Ane by (rule Clean_rooted)
      have "Clean (Path u) = concat (map ((#) CHR ''/'') (filter plain_segment rest))"
        unfolding pu using all Fne by (rule Clean_rooted)
      then have cu: "Clean (Path u)
          = concat (map ((#) CHR ''/'') ?A) @ concat (map ((#) CHR ''/'') ?B)"
        by (simp add: fil)
      from same cp cu pieces_rest show ?thesis
        by (rule URLIsSubpath_prefix)
    next
      case False
      with cond have pf: "plain_segment first" by simp
      from pieces sp have nf: "CHR ''/'' \<notin> set first" by simp
      have pp: "Path p = first @ concat (map ((#) CHR ''/'') (take m rest)) @ replicate 0 CHR ''/''"
        using p sp m by (simp add: Join_segments)
      from T' have "?T = first @ concat (map ((#) CHR ''/'') rest)"
        by (simp add: Join_segments)
      with k have pu: "Path u
          = first @ concat (map ((#) CHR ''/'') rest) @ replicate k CHR ''/''"
        by simp
      have cp: "Clean (Path p) = first @ concat (map ((#) CHR ''/'') ?A)"
        unfolding pp using pf nf allA by (rule Clean_unrooted)
      have "Clean (Path u) = first @ concat (map ((#) CHR ''/'') (filter plain_segment rest))"
        unfolding pu using pf nf all by (rule Clean_unrooted)
      then have cu: "Clean (Path u)
          = (first @ concat (map ((#) CHR ''/'') ?A)) @ concat (map ((#) CHR ''/'') ?B)"
        by (simp add: fil)
      from same cp cu pieces_rest show ?thesis
        by (rule URLIsSubpath_prefix)
    qed
  qed
  from differ sub show ?thesis by simp
qed

lemma GetParentPaths_examples:
  "GetParentPaths (example_url ''/a/../b'') = [example_url ''/a'', example_url ''/a/..'']"
  "GetParentPaths (example_url ''/./b/c'') = [example_url ''/.'', example_url ''/./b'']"
  "GetParentPaths (example_url ''///a/b'')
     = [example_url ''/'', example_url ''//'', example_url ''///a'']"
  "GetParentPaths (example_url ''/a/./b//c/'')
     = [example_url ''/a'', example_url ''/a/.'', example_url ''/a/./b'',
        example_url ''/a/./b/'']"
  by (simp_all add: GetParentPaths_def getParentPathsString_def TrimRight_def slash_def
      upt_conv_Cons example_url_def)

lemma example_url_fields:
  "Scheme (example_url p) = ''http''" "Host (example_url p) = ''h''"
  "example_url p = example_url q \<longleftrightarrow> p = q"
  by (simp_all add: example_url_def)

text \<open>
  C8 as stated, for every URL, does not hold: \<open>URLIsSubpath\<close> compares the paths cleaned
  by \<open>path.Clean\<close>, and \<open>GetParentPaths\<close> cuts the path as it is written. The path
  \<open>/a/../b\<close> has the parent \<open>/a\<close>, and its cleaned form \<open>/b\<close> does not lie under \<open>/a\<close>.
\<close>

theorem GetParentPaths_dotdot_counterexample:
  "example_url ''/a'' \<in> set (GetParentPaths (example_url ''/a/../b''))
   \<and> \<not> URLIsSubpath (example_url ''/a'') (example_url ''/a/../b'')"
  by (simp add: GetParentPaths_examples URLIsSubpath_def example_simps example_url_fields
      Clean_examples HasPrefix_def slash_def)

text \<open>
  A first piece that is \<open>.\<close> or empty is excluded as well: the parent cut after it has the
  cleaned path \<open>/\<close> without being written \<open>/\<close>, and \<open>URLIsSubpath\<close>, which knows the root
  only by its spelling, then looks for a slash right after that one-byte prefix.
\<close>

lemma GetParentPaths_dot_parent:
  "example_url ''/.'' \<in> set (GetParentPaths (example_url ''/./b/c''))
   \<and> \<not> URLIsSubpath (example_url ''/.'') (example_url ''/./b/c'')"
  by (simp add: GetParentPaths_examples URLIsSubpath_def example_simps example_url_fields
      Clean_examples HasPrefix_def slash_def)

lemma GetParentPaths_empty_segments:
  "example_url ''//'' \<in> set (GetParentPaths (example_url ''///a/b''))
   \<and> \<not> URLIsSubpath (example_url ''//'') (example_url ''///a/b'')"
  by (simp add: GetParentPaths_examples URLIsSubpath_def example_simps example_url_fields
      Clean_examples HasPrefix_def slash_def)

theorem GetParentPaths_strict_ancestors_witness:
  "URLIsSubpath (example_url ''/a/.'') (example_url ''/a/./b//c/'')
   \<and> Path (example_url ''/a/.'') \<noteq> Path (example_url ''/a/./b//c/'')"
proof -
  have m: "example_url ''/a/.'' \<in> set (GetParentPaths (example_url ''/a/./b//c/''))"
    by (simp add: GetParentPaths_examples)
  have pl: "plain_path (Path (example_url ''/a/./b//c/''))"
    by (simp add: plain_path_def plain_segment_def TrimRight_def example_simps)
  from GetParentPaths_strict_ancestors [OF m] pl show ?thesis by simp
qed

end
